theory Spec2Isabelle
  imports Complex_Main
begin

section \<open>Data model\<close>

text \<open>
  The three tools (kruskal-wallis.cc, mann-whit.cc, wilcoxon-sign.cc) keep their data in
  C arrays of structs. A \<^verbatim>\<open>double\<close> is modelled as a real number: ranks are
  integers or half-integers and are exact in IEEE arithmetic, and ties are detected with
  \<^verbatim>\<open>==\<close>, which is equality of reals. Rounding in the other statistics is not
  modelled. Divisions and square roots that can leave the finite numbers are written out
  with \<open>option\<close> below. C \<^verbatim>\<open>int\<close> counters
  are modelled as naturals (they never go negative; a pool of up to 65535 observations
  keeps \<open>totalrank\<close> below \<open>2 ^ 31\<close>). The \<^verbatim>\<open>int\<close> products of
  \<^verbatim>\<open>corrected_Tvalue\<close> leave that range much earlier and are modelled with their
  wrap-around (\<open>int32\<close> below).

  \<^verbatim>\<open>typedef struct data { double value; int label; double rank; } D;\<close>
  \<^verbatim>\<open>typedef struct pairs { double diff; double rank; double sigrank; } P;\<close>
\<close>

record D =
  value_D :: real
  label :: nat
  rank :: real

record P =
  diff :: real
  rank_P :: real
  sigrank :: real

text \<open>
  A pointer \<^verbatim>\<open>D *d\<close> is modelled as the memory it points into: cell \<open>d i\<close> is
  \<^verbatim>\<open>d[i]\<close>. The cells behind the \<open>N\<close> cells a function is told about exist in
  the model as they do in the machine (the rest of a larger buffer, or whatever lies
  behind the \<^verbatim>\<open>malloc\<close> block), because \<^verbatim>\<open>assign_ranks\<close> reads and writes
  one of them.
\<close>

type_synonym 'a array = "nat \<Rightarrow> 'a"

definition cells :: "'a list \<Rightarrow> 'a \<Rightarrow> 'a array" where
  \<comment> \<open>the memory that holds the listed cells, followed by copies of \<open>junk\<close>\<close>
  "cells xs junk = (\<lambda>i. if i < length xs then xs ! i else junk)"

definition window :: "'a array \<Rightarrow> nat \<Rightarrow> 'a list" where
  \<comment> \<open>the first \<open>N\<close> cells\<close>
  "window d N = map d [0..<N]"

definition myabs :: "real \<Rightarrow> real" where
  "myabs v = (if v \<ge> 0 then v else - v)"

section \<open>Rank assignment\<close>

text \<open>
  \<^verbatim>\<open>assign_ranks\<close> is the same text in the three files, up to the comparison key
  (\<^verbatim>\<open>d[i].value\<close> in kruskal-wallis.cc and mann-whit.cc,
  \<^verbatim>\<open>myabs(p[i].diff)\<close> in wilcoxon-sign.cc), so the two loops are written once,
  over the key and the rank field.

  The inner loop:
  \<^verbatim>\<open>do { ahead++; count++; totalrank+=(crank+count); }
  while((ahead->value == d[i].value)&&(i+count<N-1));\<close>
  with \<^verbatim>\<open>ahead\<close> starting at \<^verbatim>\<open>&d[i+1]\<close>, so that after \<open>count\<close> increments it
  points at \<^verbatim>\<open>d[i+1+count]\<close>.
\<close>

function tie_run :: "('a \<Rightarrow> real) \<Rightarrow> 'a array \<Rightarrow> nat \<Rightarrow> nat \<Rightarrow> nat \<Rightarrow> nat \<Rightarrow> nat \<Rightarrow> nat \<times> nat" where
  "tie_run key d i N crank count totalrank =
     (let count' = count + 1;
          totalrank' = totalrank + (crank + count')
      in if key (d (i + 1 + count')) = key (d i) \<and> i + count' < N - 1
         then tie_run key d i N crank count' totalrank'
         else (count', totalrank'))"
  by pat_completeness auto
termination
  by (relation "measure (\<lambda>(key, d, i, N, crank, count, totalrank). N - 1 - (i + count))") auto

declare tie_run.simps [simp del]

fun set_ranks :: "(real \<Rightarrow> 'a \<Rightarrow> 'a) \<Rightarrow> 'a array \<Rightarrow> nat \<Rightarrow> nat \<Rightarrow> real \<Rightarrow> 'a array" where
  \<comment> \<open>\<^verbatim>\<open>for(j=0;j<=count;j++) d[i+j].rank = r;\<close>\<close>
  "set_ranks setr d i 0 r = d(i := setr r (d i))"
| "set_ranks setr d i (Suc count) r =
     (let d' = set_ranks setr d i count r
      in d'(i + Suc count := setr r (d' (i + Suc count))))"

function rank_loop :: "('a \<Rightarrow> real) \<Rightarrow> (real \<Rightarrow> 'a \<Rightarrow> 'a) \<Rightarrow> nat \<Rightarrow> nat \<Rightarrow> nat \<Rightarrow> nat \<Rightarrow> 'a array
    \<Rightarrow> 'a array \<times> nat" where
  "rank_loop key setr N i crank total_ties d =
     (if i < N then
        if key (d (i + 1)) = key (d i) then
          let (count, totalrank) = tie_run key d i N crank 0 crank;
              d' = set_ranks setr d i count (real totalrank / real (count + 1))
          in rank_loop key setr N (i + (count + 1)) (crank + (count + 1)) (total_ties + count) d'
        else rank_loop key setr N (i + 1) (crank + 1) total_ties (d(i := setr (real crank) (d i)))
      else (d, total_ties))"
  by pat_completeness auto
termination
  by (relation "measure (\<lambda>(key, setr, N, i, crank, total_ties, d). N - i)") auto

declare rank_loop.simps [simp del]

definition assign_ranks :: "D array \<Rightarrow> nat \<Rightarrow> D array \<times> nat" where
  \<comment> \<open>kruskal-wallis.cc and mann-whit.cc: the ranked memory and \<^verbatim>\<open>total_ties\<close>\<close>
  "assign_ranks d N = rank_loop value_D (\<lambda>r x. x\<lparr>rank := r\<rparr>) N 0 1 0 d"

definition rank_sum :: "D array \<Rightarrow> nat \<Rightarrow> real" where
  \<comment> \<open>the sum of the ranks of a pool of \<open>N\<close> observations\<close>
  "rank_sum d N = (\<Sum>i\<leftarrow>[0..<N]. rank (d i))"

definition assign_ranks_P :: "P array \<Rightarrow> nat \<Rightarrow> P array \<times> nat" where
  \<comment> \<open>wilcoxon-sign.cc\<close>
  "assign_ranks_P p N = rank_loop (\<lambda>x. myabs (diff x)) (\<lambda>r x. x\<lparr>rank_P := r\<rparr>) N 0 1 0 p"

section \<open>Errors and output\<close>

text \<open>
  Every \<^verbatim>\<open>exit(1)\<close> of the three \<^verbatim>\<open>main\<close> functions is printed together with a
  diagnostic on \<^verbatim>\<open>stderr\<close>; it is a value of \<open>error\<close> here, and a run that reaches
  \<^verbatim>\<open>return(0)\<close> is an \<open>Inr\<close> with what was written to the output file and the
  warnings that went to \<^verbatim>\<open>stderr\<close>. A run that stops with an error in the middle of
  the tests leaves the lines written so far in the output file; the model does not keep
  them.
\<close>

datatype error =
    Usage            \<comment> \<open>\<^verbatim>\<open>argc != 4\<close>\<close>
  | ParamOpen        \<comment> \<open>parameter file cannot be opened (kruskal-wallis.cc only)\<close>
  | ParamScan        \<comment> \<open>\<^verbatim>\<open>fscanf\<close> returned \<^verbatim>\<open>EOF\<close>\<close>
  | AlphaRange       \<comment> \<open>alpha outside (0, 0.1]\<close>
  | IndicatorOpen    \<comment> \<open>indicator file cannot be opened\<close>
  | MaxDists         \<comment> \<open>more than \<^verbatim>\<open>MAX_DISTS\<close> sample populations\<close>
  | NotSameSize      \<comment> \<open>wilcoxon-sign.cc: two samples differ in size\<close>
  | OutputOpen       \<comment> \<open>output file cannot be opened\<close>
  | NeedFour         \<comment> \<open>wilcoxon-sign.cc: fewer than 4 nonzero differences\<close>

datatype warning =
    SmallSample nat nat   \<comment> \<open>sample population \<open>i+1\<close> is of size \<open>Nsamp[i] < 20\<close>\<close>
  | MultipleTests         \<comment> \<open>\<^verbatim>\<open>ndist > 2\<close> in the pairwise tools\<close>

datatype out_line =
    Better nat nat "real option"
      \<comment> \<open>\<^verbatim>\<open>"%d better than %d with a p-value of %g\n"\<close>; the p-value is \<open>None\<close> where the
          computation of the statistic met an infinity or a NaN (see \<open>ddiv\<close> and \<open>dsqrt\<close>
          below): the line is written, with a number the model does not follow\<close>
  | H0
      \<comment> \<open>the literal \<^verbatim>\<open>"H0"\<close>\<close>
  | NotModelled
      \<comment> \<open>kruskal-wallis.cc with a statistic \<open>T\<close> that is an infinity or a NaN: what the
          distribution library answers, and so which of the two outputs is written, is
          outside the model\<close>

record run =
  out_file :: "out_line list"
  warnings :: "warning list"


section \<open>Reading the indicator file\<close>

text \<open>
  The file is read with \<^verbatim>\<open>fgets\<close> and each line is tried with
  \<^verbatim>\<open>sscanf(line, "%lf", &number)\<close>. A line is modelled by the outcome of that call:
  \<open>Some number\<close> when it returns 1, \<open>None\<close> otherwise (a blank line, or a line that
  does not start with a number).
\<close>

type_synonym line = "real option"

definition MAX_DISTS :: nat where
  "MAX_DISTS = 30"

definition zeroN :: "nat array" where
  \<comment> \<open>\<^verbatim>\<open>for(j=0;j<MAX_DISTS;j++) Nsamp[j] = 0;\<close>\<close>
  "zeroN = (\<lambda>j. 0)"

fun check_loop :: "line list \<Rightarrow> nat \<Rightarrow> nat \<Rightarrow> nat array \<Rightarrow> bool \<Rightarrow> error + (nat \<times> nat \<times> nat array)" where
  "check_loop [] no_runs total_n Nsamp new_run = Inr (no_runs, total_n, Nsamp)"
| "check_loop (None # ls) no_runs total_n Nsamp new_run = check_loop ls no_runs total_n Nsamp True"
| "check_loop (Some number # ls) no_runs total_n Nsamp new_run =
     (let no_runs' = (if new_run then no_runs + 1 else no_runs)
      in if no_runs' \<le> MAX_DISTS
         then check_loop ls no_runs' (total_n + 1) (Nsamp(no_runs' - 1 := Nsamp (no_runs' - 1) + 1)) False
         else Inl MaxDists)"

definition check_file :: "line list \<Rightarrow> nat array \<Rightarrow> error + (nat \<times> nat \<times> nat array)" where
  \<comment> \<open>kruskal-wallis.cc and mann-whit.cc: \<open>(ndist, N, Nsamp)\<close>\<close>
  "check_file ls Nsamp = check_loop ls 0 0 Nsamp True"

definition check_file_W :: "line list \<Rightarrow> nat array \<Rightarrow> error + (nat \<times> nat \<times> nat array)" where
  \<comment> \<open>wilcoxon-sign.cc: the same loop, then all samples must have the size of the first\<close>
  "check_file_W ls Nsamp =
     (case check_loop ls 0 0 Nsamp True of
        Inl e \<Rightarrow> Inl e
      | Inr (no_runs, total_n, Nsamp') \<Rightarrow>
          if list_ex (\<lambda>j. Nsamp' j \<noteq> Nsamp' 0) [1..<no_runs] then Inl NotSameSize
          else Inr (no_runs, total_n, Nsamp'))"

fun read_loop :: "line list \<Rightarrow> nat \<Rightarrow> nat \<Rightarrow> D array \<Rightarrow> nat \<times> D array" where
  "read_loop [] no_points clabel d = (no_points, d)"
| "read_loop (None # ls) no_points clabel d = read_loop ls no_points (clabel + 1) d"
| "read_loop (Some number # ls) no_points clabel d =
     read_loop ls (no_points + 1) clabel
       (d(no_points := (d no_points)\<lparr>value_D := number, label := clabel\<rparr>))"

definition read_file :: "line list \<Rightarrow> D array \<Rightarrow> nat \<times> D array" where
  "read_file ls d = read_loop ls 0 0 d"

section \<open>Sorting\<close>

text \<open>
  \<^verbatim>\<open>qsort(d, N, sizeof(D), compare)\<close> sorts the first \<open>N\<close> cells by the key that
  \<^verbatim>\<open>compare\<close> looks at and leaves the cells behind them alone. The C library does not
  say in which order elements with equal keys end up; the insertion sort of the HOL
  library picks one such order.
\<close>

definition qsort :: "('a \<Rightarrow> real) \<Rightarrow> 'a array \<Rightarrow> nat \<Rightarrow> 'a array" where
  \<comment> \<open>the sorted cells are written back to the places \<open>0, \<dots>, N - 1\<close>\<close>
  "qsort key d N = fold (\<lambda>(i, x) d'. d'(i := x)) (zip [0..<N] (sort_key key (window d N))) d"

definition compare :: "D \<Rightarrow> real" where
  \<comment> \<open>the key of \<^verbatim>\<open>compare\<close>\<close>
  "compare x = value_D x"

definition comparediff :: "P \<Rightarrow> real" where
  \<comment> \<open>the key of \<^verbatim>\<open>comparediff\<close>\<close>
  "comparediff x = myabs (diff x)"

section \<open>Statistics\<close>

definition sum_of_ranks :: "D array \<Rightarrow> nat \<Rightarrow> nat \<Rightarrow> real" where
  "sum_of_ranks d index N = (\<Sum>i\<leftarrow>[0..<N]. if label (d i) = index then rank (d i) else 0)"

definition sum_squared_ranks :: "D array \<Rightarrow> nat \<Rightarrow> real" where
  "sum_squared_ranks d N = (\<Sum>i\<leftarrow>[0..<N]. (rank (d i))\<^sup>2)"

text \<open>
  A division by zero or the square root of a negative number gives an infinity or a NaN
  in C and the computation goes on with it. The model stops following the number there:
  \<open>None\<close> stands for a number that went through an infinity or a NaN.
\<close>

definition ddiv :: "real \<Rightarrow> real \<Rightarrow> real option" where
  "ddiv x y = (if y = 0 then None else Some (x / y))"

definition dsqrt :: "real \<Rightarrow> real option" where
  "dsqrt x = (if x < 0 then None else Some (sqrt x))"




text \<open>
  \<^verbatim>\<open>corrected_Tvalue\<close> multiplies its \<^verbatim>\<open>int\<close> arguments before it converts to
  \<^verbatim>\<open>double\<close>: \<^verbatim>\<open>n*(N+1)\<close>, \<^verbatim>\<open>n*m\<close>, \<^verbatim>\<open>N*(N-1)\<close>, \<^verbatim>\<open>m*n*(N+1)*(N+1)\<close> and
  \<^verbatim>\<open>4*(N-1)\<close> are 32-bit products. \<open>int32 x\<close> is the \<^verbatim>\<open>int\<close> that the machine keeps of
  the integer \<open>x\<close> (two's complement, wrapping at \<open>2 ^ 31\<close>), and it is applied after every
  operation, from left to right as the expression is evaluated.
\<close>

definition int32 :: "int \<Rightarrow> int" where
  "int32 x = (x + 2 ^ 31) mod 2 ^ 32 - 2 ^ 31"

definition corrected_Tvalue :: "D array \<Rightarrow> nat \<Rightarrow> nat \<Rightarrow> nat \<Rightarrow> nat \<Rightarrow> real option" where
  \<comment> \<open>mann-whit.cc:
      \<^verbatim>\<open>T1 = (T - ((n*(N+1))/2.0));\<close>
      \<^verbatim>\<open>denom = (double(n*m)/double(N*(N-1))*ssR) - double((m*n*(N+1)*(N+1))/double(4*(N-1)));\<close>
      \<^verbatim>\<open>if (T1 == 0.0) return 0.0;\<close>
      \<^verbatim>\<open>return(T1/sqrt(denom));\<close>\<close>
  "corrected_Tvalue d n m N idx =
     (let T = sum_of_ranks d idx N;
          ssR = sum_squared_ranks d N;
          N1 = int32 (int N + 1);
          T1 = T - real_of_int (int32 (int n * N1)) / 2;
          denom =
            Option.bind (ddiv (real_of_int (int32 (int n * int m)))
                              (real_of_int (int32 (int N * int32 (int N - 1))))) (\<lambda>x.
            Option.bind (ddiv (real_of_int (int32 (int32 (int32 (int m * int n) * N1) * N1)))
                              (real_of_int (int32 (4 * int32 (int N - 1))))) (\<lambda>y.
            Some (x * ssR - y)))
      in if T1 = 0 then Some 0
         else Option.bind denom (\<lambda>dn. Option.bind (dsqrt dn) (\<lambda>s. ddiv T1 s)))"

section \<open>The table of critical values (wilcoxon-sign.cc)\<close>

text \<open>
  \<^verbatim>\<open>double W[51][9]; double Wsig[9];\<close> are globals, so the rows 0 to 3 that
  \<^verbatim>\<open>init_W\<close> does not assign are zero. Row \<open>n\<close> of the table is \<^verbatim>\<open>W[n]\<close>; the
  rows written by \<^verbatim>\<open>init_W\<close> are those for \<open>n = 4, \<dots>, 50\<close>, in this order.
\<close>

definition Wsig_table :: "real list" where
  "Wsig_table = [0.005, 0.01, 0.025, 0.05, 0.1, 0.2, 0.3, 0.4, 0.5]"

definition W_table :: "real list list" where
  "W_table =
     replicate 4 (replicate 9 0) @
     [[0, 0, 0, 0, 1, 3, 3, 4, 5],
      [0, 0, 0, 1, 3, 4, 5, 6, 7.5],
      [0, 0, 1, 3, 4, 6, 8, 9, 10.5],
      [0, 1, 3, 4, 6, 9, 11, 12, 14],
      [1, 2, 4, 6, 9, 12, 14, 16, 18],
      [2, 4, 6, 9, 11, 15, 18, 20, 22.5],
      [4, 6, 9, 11, 15, 19, 22, 25, 27.5],
      [6, 8, 11, 14, 18, 23, 27, 30, 33],
      [8, 10, 14, 18, 22, 28, 32, 36, 39],
      [10, 13, 18, 22, 27, 33, 38, 42, 45.5],
      [13, 16, 22, 26, 32, 39, 44, 48, 52.5],
      [16, 20, 26, 31, 37, 45, 51, 55, 60],
      [20, 24, 30, 36, 43, 51, 58, 63, 68],
      [24, 28, 35, 42, 49, 58, 65, 71, 76.5],
      [28, 33, 41, 48, 56, 66, 73, 80, 85.5],
      [33, 38, 47, 54, 63, 74, 82, 89, 95],
      [38, 44, 53, 61, 70, 83, 91, 98, 105],
      [44, 50, 59, 68, 78, 91, 100, 108, 115.5],
      [49, 56, 67, 76, 87, 100, 110, 119, 126.5],
      [55, 63, 74, 84, 95, 110, 120, 130, 138],
      [62, 70, 82, 92, 105, 120, 131, 141, 150],
      [69, 77, 90, 101, 114, 131, 143, 153, 162.5],
      [76, 85, 99, 111, 125, 142, 155, 165, 175.5],
      [84, 94, 108, 120, 135, 154, 167, 178, 189],
      [92, 102, 117, 131, 146, 166, 180, 192, 203],
      [101, 111, 127, 141, 158, 178, 193, 206, 217.5],
      [110, 121, 138, 152, 170, 191, 207, 220, 232.5],
      [119, 131, 148, 164, 182, 205, 221, 235, 248],
      [129, 141, 160, 176, 195, 219, 236, 250, 264],
      [139, 152, 171, 188, 208, 233, 251, 266, 280.5],
      [149, 163, 183, 201, 222, 248, 266, 282, 297.5],
      [160, 175, 196, 214, 236, 263, 283, 299, 315],
      [172, 187, 209, 228, 251, 279, 299, 317, 333],
      [184, 199, 222, 242, 266, 296, 316, 335, 351.5],
      [196, 212, 236, 257, 282, 312, 334, 353, 370.5],
      [208, 225, 250, 272, 298, 329, 352, 372, 390],
      [221, 239, 265, 287, 314, 347, 371, 391, 410],
      [235, 253, 280, 303, 331, 365, 390, 411, 430.5],
      [248, 267, 295, 320, 349, 384, 409, 431, 451.5],
      [263, 282, 311, 337, 366, 403, 429, 452, 473],
      [227, 297, 328, 354, 385, 422, 450, 473, 495],
      [292, 313, 344, 372, 403, 442, 471, 495, 517.5],
      [308, 329, 362, 390, 423, 463, 492, 517, 540.5],
      [324, 346, 379, 408, 442, 484, 514, 540, 564],
      [340, 363, 397, 428, 463, 505, 536, 563, 588],
      [357, 381, 416, 447, 483, 527, 559, 587, 612.5],
      [374, 398, 435, 467, 504, 550, 583, 611, 637.5]]"

definition W :: "nat \<Rightarrow> nat \<Rightarrow> real" where
  "W n j = W_table ! n ! j"

definition Wsig :: "nat \<Rightarrow> real" where
  "Wsig j = Wsig_table ! j"

section \<open>The three programs\<close>

definition ordered_pairs :: "nat \<Rightarrow> (nat \<times> nat) list" where
  \<comment> \<open>the two nested \<^verbatim>\<open>for\<close> loops over \<open>0..ndist-1\<close> with \<^verbatim>\<open>continue\<close> on equal indices\<close>
  "ordered_pairs ndist = [(i, j). i \<leftarrow> [0..<ndist], j \<leftarrow> [0..<ndist], i \<noteq> j]"


subsection \<open>kruskal-wallis.cc\<close>





subsection \<open>mann-whit.cc\<close>

definition copy_sample :: "D array \<Rightarrow> D array \<Rightarrow> nat \<Rightarrow> nat \<Rightarrow> nat \<Rightarrow> nat \<Rightarrow> D array" where
  \<comment> \<open>\<^verbatim>\<open>for(i=0;i<cnt;i++) { pair[i+off].value = d[i+start].value; pair[i+off].label = l; }\<close>\<close>
  "copy_sample d pair start cnt off l =
     fold (\<lambda>i pr. pr(i + off := (pr (i + off))\<lparr>value_D := value_D (d (i + start)), label := l\<rparr>))
       [0..<cnt] pair"

definition start_of :: "nat array \<Rightarrow> nat \<Rightarrow> nat" where
  \<comment> \<open>\<^verbatim>\<open>start=0; for(i=0;i<j;i++) start+=Nsamp[i];\<close>\<close>
  "start_of Nsamp j = (\<Sum>i\<leftarrow>[0..<j]. Nsamp i)"

definition mw_sorted :: "nat array \<Rightarrow> D array \<Rightarrow> D array \<Rightarrow> nat \<Rightarrow> nat \<Rightarrow> D array" where
  \<comment> \<open>the buffer \<^verbatim>\<open>pair\<close> of test \<open>(j, k)\<close> after \<^verbatim>\<open>qsort\<close>\<close>
  "mw_sorted Nsamp d pair j k =
     (let pair = copy_sample d pair (start_of Nsamp j) (Nsamp j) 0 j;
          pair = copy_sample d pair (start_of Nsamp k) (Nsamp k) (Nsamp j) k
      in qsort compare pair (Nsamp j + Nsamp k))"

definition mw_pool :: "nat array \<Rightarrow> D array \<Rightarrow> D array \<Rightarrow> nat \<Rightarrow> nat \<Rightarrow> D array \<times> nat" where
  \<comment> \<open>the pool of test \<open>(j, k)\<close>, sorted and ranked in the buffer \<^verbatim>\<open>pair\<close>, and the number
      of ties \<^verbatim>\<open>t\<close>\<close>
  "mw_pool Nsamp d pair j k =
     assign_ranks (mw_sorted Nsamp d pair j k) (Nsamp j + Nsamp k)"



text \<open>
  With \<^verbatim>\<open>VERBOSE\<close> (which is \<^verbatim>\<open>true\<close>) every test prints its ranked pool, one line
  \<^verbatim>\<open>"%g %d %.2g\n"\<close> of value, label and rank per observation, and then
  \<^verbatim>\<open>"Total number of ties =%d\n"\<close>. \<open>mw_pools\<close> is that part of \<^verbatim>\<open>stdout\<close>.
\<close>

fun mw_pools :: "nat array \<Rightarrow> D array \<Rightarrow> (nat \<times> nat) list \<Rightarrow> D array \<Rightarrow> (D list \<times> nat) list" where
  "mw_pools Nsamp d [] pair = []"
| "mw_pools Nsamp d ((j, k) # ps) pair =
     (let (pair', t) = mw_pool Nsamp d pair j k
      in (window pair' (Nsamp j + Nsamp k), t) # mw_pools Nsamp d ps pair')"

definition main_mw_stdout :: "D array \<Rightarrow> D array \<Rightarrow> line list \<Rightarrow> (D list \<times> nat) list" where
  "main_mw_stdout heap_d heap_pair ls =
     (case check_file ls zeroN of
        Inl e \<Rightarrow> []
      | Inr (ndist, N0, Nsamp) \<Rightarrow>
          (let (N, d) = read_file ls heap_d
           in mw_pools Nsamp d (ordered_pairs ndist) heap_pair))"


subsection \<open>wilcoxon-sign.cc\<close>

definition diff_step :: "D array \<Rightarrow> nat \<Rightarrow> nat \<Rightarrow> nat \<Rightarrow> nat \<Rightarrow> P array \<times> nat \<Rightarrow> P array \<times> nat" where
  \<comment> \<open>\<^verbatim>\<open>p[i].diff = d[Nsamp[0]*b+i].value-d[Nsamp[0]*a+i].value;
        if(p[i].diff==0) { p[i].diff=10e99; ties++; }\<close>\<close>
  "diff_step d Nsamp0 a b i = (\<lambda>(p, ties).
     (let x = value_D (d (Nsamp0 * b + i)) - value_D (d (Nsamp0 * a + i))
      in if x = 0 then (p(i := (p i)\<lparr>diff := 10 * 10 ^ 99\<rparr>), ties + 1)
         else (p(i := (p i)\<lparr>diff := x\<rparr>), ties)))"

definition sign_step :: "nat \<Rightarrow> P array \<Rightarrow> P array" where
  \<comment> \<open>\<^verbatim>\<open>if(p[i].diff<0) p[i].sigrank=-p[i].rank; else p[i].sigrank=p[i].rank;\<close>\<close>
  "sign_step i p =
     (if diff (p i) < 0 then p(i := (p i)\<lparr>sigrank := - rank_P (p i)\<rparr>)
      else p(i := (p i)\<lparr>sigrank := rank_P (p i)\<rparr>))"

definition sorted_diffs :: "D array \<Rightarrow> nat \<Rightarrow> P array \<Rightarrow> nat \<Rightarrow> nat \<Rightarrow> P array \<times> nat" where
  \<comment> \<open>the differences of the pair \<open>(a, b)\<close>, sorted by \<^verbatim>\<open>qsort(p, Nsamp[0], sizeof(P), comparediff)\<close>,
      and \<open>ties\<close>\<close>
  "sorted_diffs d Nsamp0 p a b =
     (let (p, ties) = fold (diff_step d Nsamp0 a b) [0..<Nsamp0] (p, 0)
      in (qsort comparediff p Nsamp0, ties))"

definition signed_ranks :: "D array \<Rightarrow> nat \<Rightarrow> P array \<Rightarrow> nat \<Rightarrow> nat \<Rightarrow> P array \<times> nat \<times> nat" where
  \<comment> \<open>the buffer \<^verbatim>\<open>p\<close> after the signed ranks are set, \<open>n\<close> and \<open>ties\<close>\<close>
  "signed_ranks d Nsamp0 p a b =
     (let (p, ties) = sorted_diffs d Nsamp0 p a b;
          n = Nsamp0 - ties;
          (p, t) = assign_ranks_P p n;
          p = fold sign_step [0..<n] p
      in (p, n, ties))"

function scan_upper :: "nat \<Rightarrow> real \<Rightarrow> nat \<Rightarrow> nat" where
  \<comment> \<open>\<^verbatim>\<open>while(W[n][j]<Tplus && j <8) j++;\<close>\<close>
  "scan_upper n Tplus j = (if W n j < Tplus \<and> j < 8 then scan_upper n Tplus (j + 1) else j)"
  by pat_completeness auto
termination
  by (relation "measure (\<lambda>(n, Tplus, j). 8 - j)") auto

function scan_lower :: "nat \<Rightarrow> real \<Rightarrow> nat \<Rightarrow> nat" where
  \<comment> \<open>\<^verbatim>\<open>while( (n*(n-1))/2 - W[n][j] > Tplus && j < 8) j++;\<close>\<close>
  "scan_lower n Tplus j =
     (if real ((n * (n - 1)) div 2) - W n j > Tplus \<and> j < 8 then scan_lower n Tplus (j + 1) else j)"
  by pat_completeness auto
termination
  by (relation "measure (\<lambda>(n, Tplus, j). 8 - j)") auto

declare scan_upper.simps [simp del] scan_lower.simps [simp del]

definition Tplus_of :: "P array \<Rightarrow> nat \<Rightarrow> real" where
  \<comment> \<open>\<^verbatim>\<open>for(i=0;i<n;i++) if(p[i].diff>0) Tplus += p[i].sigrank;\<close>\<close>
  "Tplus_of p n = (\<Sum>i\<leftarrow>[0..<n]. if diff (p i) > 0 then sigrank (p i) else 0)"

definition Tminus_of :: "P array \<Rightarrow> nat \<Rightarrow> real" where
  \<comment> \<open>not computed by the program: the sum of the absolute values of the negative signed
      ranks, the \<open>Tminus\<close> of the specification\<close>
  "Tminus_of p n = (\<Sum>i\<leftarrow>[0..<n]. if diff (p i) < 0 then myabs (sigrank (p i)) else 0)"

definition sum_signed :: "P array \<Rightarrow> nat \<Rightarrow> real" where
  \<comment> \<open>\<^verbatim>\<open>sum_of_ranks+=p[i].sigrank;\<close>\<close>
  "sum_signed p n = (\<Sum>i\<leftarrow>[0..<n]. sigrank (p i))"

definition sum_sq_signed :: "P array \<Rightarrow> nat \<Rightarrow> real" where
  \<comment> \<open>\<^verbatim>\<open>sum_of_sq_ranks+=pow(p[i].sigrank,2.0);\<close>\<close>
  "sum_sq_signed p n = (\<Sum>i\<leftarrow>[0..<n]. (sigrank (p i))\<^sup>2)"

text \<open>
  Both branches print the same line; the branch that ran is visible on \<^verbatim>\<open>stdout\<close>
  (\<^verbatim>\<open>VERBOSE\<close> is \<^verbatim>\<open>true\<close>): "Using the standard normal approximation ..." or
  "Using exact critical values ...". The model returns it as a tag.
\<close>

datatype branch = Normal | Exact

definition wilcoxon_pair :: "(real \<Rightarrow> real) \<Rightarrow> D array \<Rightarrow> nat \<Rightarrow> P array \<Rightarrow> nat \<Rightarrow> nat
    \<Rightarrow> error + (P array \<times> branch \<times> out_line)" where
  "wilcoxon_pair myZ d Nsamp0 p a b =
     (let (p, n, ties) = signed_ranks d Nsamp0 p a b
      in if n < 4 then Inl NeedFour
         else if n > 50 \<or> real ties / real Nsamp0 > 0.5 then
           (let sum_of_ranks = sum_signed p n;
                sum_of_sq_ranks = sum_sq_signed p n;
                lowerp = 1 - myZ ((sum_of_ranks + 1) / sqrt sum_of_sq_ranks);
                upperp = myZ ((sum_of_ranks - 1) / sqrt sum_of_sq_ranks);
                pvalue = (if lowerp < upperp then 2 * lowerp else 2 * upperp);
                pvalue = upperp
            in Inr (p, Normal, Better (b + 1) (a + 1) (Some pvalue)))
         else
           (let Tplus = Tplus_of p n;
                j = scan_upper n Tplus 0;
                upperp = Wsig j;
                j = scan_lower n Tplus 0;
                lowerp = Wsig j;
                pvalue = (if lowerp < upperp then 2 * lowerp else 2 * upperp);
                pvalue = upperp
            in Inr (p, Exact, Better (b + 1) (a + 1) (Some pvalue))))"

fun wilcoxon_pairs :: "(real \<Rightarrow> real) \<Rightarrow> D array \<Rightarrow> nat \<Rightarrow> (nat \<times> nat) list \<Rightarrow> P array \<Rightarrow> out_line list
    \<Rightarrow> error + out_line list" where
  "wilcoxon_pairs myZ d Nsamp0 [] p out = Inr out"
| "wilcoxon_pairs myZ d Nsamp0 ((a, b) # ps) p out =
     (case wilcoxon_pair myZ d Nsamp0 p a b of
        Inl e \<Rightarrow> Inl e
      | Inr (p', br, l) \<Rightarrow> wilcoxon_pairs myZ d Nsamp0 ps p' (out @ [l]))"

definition main_wilcoxon :: "(real \<Rightarrow> real) \<Rightarrow> D array \<Rightarrow> P array \<Rightarrow> nat \<Rightarrow> line list option \<Rightarrow> bool
    \<Rightarrow> error + run" where
  "main_wilcoxon myZ heap_d heap_p argc indicator out_ok =
     (if argc \<noteq> 4 then Inl Usage
      else (case indicator of
        None \<Rightarrow> Inl IndicatorOpen
      | Some ls \<Rightarrow>
          (case check_file_W ls zeroN of
             Inl e \<Rightarrow> Inl e
           | Inr (ndist, N0, Nsamp) \<Rightarrow>
               (let (N, d) = read_file ls heap_d
                in if \<not> out_ok then Inl OutputOpen
                   else (case wilcoxon_pairs myZ d (Nsamp 0) (ordered_pairs ndist) heap_p [] of
                           Inl e \<Rightarrow> Inl e
                         | Inr out \<Rightarrow>
                             Inr \<lparr>out_file = out,
                                  warnings = (if ndist > 2 then [MultipleTests] else [])\<rparr>)))))"

text \<open>Concrete memory contents and library functions for the examples below.\<close>

definition mkD :: "real \<Rightarrow> nat \<Rightarrow> real \<Rightarrow> D" where
  "mkD v l r = \<lparr>value_D = v, label = l, rank = r\<rparr>"

definition zeroD :: "D array" where
  "zeroD = (\<lambda>i. mkD 0 0 0)"

definition zeroP :: "P array" where
  "zeroP = (\<lambda>i. \<lparr>diff = 0, rank_P = 0, sigrank = 0\<rparr>)"

definition half :: "real \<Rightarrow> real" where
  \<comment> \<open>stands in for a distribution function where its values do not matter\<close>
  "half x = 1 / 2"

text \<open>
  Indicator files used below, as the lines the loader sees. \<open>three_blocks\<close> holds the
  samples \<open>1, 9\<close>, \<open>2, 3\<close> and \<open>4\<close>. The other files hold two paired samples \<open>A\<close> and
  \<open>B\<close> for the signed-rank test, with the differences \<open>B - A\<close> being
  \<open>1, -2, -3, -4, -5\<close> (\<open>one_positive\<close>), \<open>1, 2, 3, 10\<^sup>1\<^sup>0\<^sup>0, 0, 0\<close> (\<open>huge_difference\<close>),
  \<open>0, 0, 0, 1, 2\<close> (\<open>mostly_equal\<close>) and \<open>1, 2, 3, 4, 0, 0, 0, 0, 0\<close> (\<open>many_zeros\<close>).
\<close>

definition three_blocks :: "line list" where
  "three_blocks = [Some 1, Some 9, None, Some 2, Some 3, None, Some 4]"

definition leading_blank :: "line list" where
  "leading_blank = [None, Some 1, Some 2, None, Some 3, Some 4]"

definition one_positive :: "line list" where
  "one_positive = [Some 0, Some 2, Some 3, Some 4, Some 5, None,
                   Some 1, Some 0, Some 0, Some 0, Some 0]"

definition huge_difference :: "line list" where
  "huge_difference = [Some 0, Some 0, Some 0, Some 0, Some 0, Some 0, None,
                      Some 1, Some 2, Some 3, Some (10 ^ 100), Some 0, Some 0]"

definition mostly_equal :: "line list" where
  "mostly_equal = [Some 1, Some 1, Some 1, Some 1, Some 1, None,
                   Some 1, Some 1, Some 1, Some 2, Some 3]"

definition many_zeros :: "line list" where
  "many_zeros = [Some 0, Some 0, Some 0, Some 0, Some 0, Some 0, Some 0, Some 0, Some 0, None,
                 Some 1, Some 2, Some 3, Some 4, Some 0, Some 0, Some 0, Some 0, Some 0]"


definition first_and_third :: "line list" where
  \<comment> \<open>the first and the third sample of \<open>three_blocks\<close>, alone in a file\<close>
  "first_and_third = [Some 1, Some 9, None, Some 4]"

definition alone_pool :: "D array" where
  \<comment> \<open>the buffer \<^verbatim>\<open>pair\<close> of mann-whit.cc on \<open>first_and_third\<close> after its first test\<close>
  "alone_pool =
     (case check_file first_and_third zeroN of
        Inl e \<Rightarrow> zeroD
      | Inr (ndist, N, Nsamp) \<Rightarrow>
          fst (mw_pool Nsamp (snd (read_file first_and_third zeroD)) zeroD 0 1))"


definition tied_pool :: "D array" where
  \<comment> \<open>the ranked pool of mann-whit.cc for two samples of one value each, both \<open>5\<close>\<close>
  "tied_pool =
     fst (mw_pool (zeroN(0 := 1, 1 := 1)) (snd (read_file [Some 5, None, Some 5] zeroD)) zeroD 0 1)"



section \<open>The table of critical values is not monotone\<close>

text \<open>
  Claim C10: in every column \<open>j\<close> of the table built by \<^verbatim>\<open>init_W\<close> the critical values
  \<open>W[n][j]\<close> are nondecreasing in \<open>n\<close> over \<open>4, \<dots>, 50\<close>. The table of the program
  breaks this once: \<^verbatim>\<open>W[44][0]=227\<close> follows \<^verbatim>\<open>W[43][0]=263\<close> (and precedes
  \<^verbatim>\<open>W[45][0]=292\<close>).
\<close>

theorem W_44_0_below_W_43_0:
  "W 43 0 = 263 \<and> W 44 0 = 227 \<and> W 45 0 = 292 \<and> W 44 0 < W 43 0"
  by code_simp

text \<open>Every other step down a column is nondecreasing.\<close>

lemma W_columns_elsewhere:
  "list_all (\<lambda>n. list_all (\<lambda>j. (n, j) = (43, 0) \<or> W n j \<le> W (n + 1) j) [0..<9]) [4..<50]"
  by code_simp

section \<open>Block labels\<close>

text \<open>
  Claim C7: the label the loader gives an observation is the 0-based position of its
  block among the non-empty blocks, so the labels are \<open>0, \<dots>, k - 1\<close> for the \<open>k\<close> blocks
  the loader counts, and leading or repeated blank lines shift no label.
  \<^verbatim>\<open>check_file\<close> counts that way (its \<^verbatim>\<open>new_run\<close> flag), but \<^verbatim>\<open>read_file\<close> adds one
  to \<^verbatim>\<open>clabel\<close> at every line that is not a number: in a file that starts with a blank
  line, \<^verbatim>\<open>check_file\<close> counts 2 blocks and \<^verbatim>\<open>read_file\<close> labels them 1 and 2.
\<close>

theorem read_file_leading_blank:
  "map_sum id fst (check_file leading_blank zeroN) = Inr 2
   \<and> fst (read_file leading_blank zeroD) = 4
   \<and> map (label \<circ> snd (read_file leading_blank zeroD)) [0..<4] = [1, 1, 2, 2]"
  by code_simp

section \<open>What rank assignment computes\<close>

text \<open>
  What the two loops compute, for any key and rank field. \<open>k\<close> is the key of every cell;
  it does not change, since only ranks are written. A run is a maximal block of
  neighbouring cells with one key; the scan finds the runs whether or not the pool is
  sorted.
\<close>

lemma tie_run_spec:
  "tie_run key d i N crank count totalrank = (e, tr) \<Longrightarrow>
     count < e
     \<and> tr = totalrank + (\<Sum>u\<leftarrow>[count + 1..<e + 1]. crank + u)
     \<and> (\<forall>u. count < u \<and> u < e \<longrightarrow> key (d (i + 1 + u)) = key (d i) \<and> i + u < N - 1)
     \<and> \<not> (key (d (i + 1 + e)) = key (d i) \<and> i + e < N - 1)"
proof (induction key d i N crank count totalrank arbitrary: e tr rule: tie_run.induct)
  case (1 key d i N crank count totalrank)
  let ?c = "count + 1"
  let ?t = "totalrank + (crank + ?c)"
  show ?case
  proof (cases "key (d (i + 1 + ?c)) = key (d i) \<and> i + ?c < N - 1")
    case True
    have run: "tie_run key d i N crank ?c ?t = (e, tr)"
      using "1.prems" True by (subst (asm) tie_run.simps) (simp add: Let_def)
    note IH = "1.IH" [OF refl refl True run]
    have less: "?c < e" using IH by simp
    have "[count + 1..<e + 1] = ?c # [?c + 1..<e + 1]"
      using less by (simp add: upt_conv_Cons)
    moreover have "key (d (i + 1 + u)) = key (d i) \<and> i + u < N - 1" if "count < u" "u < e" for u
    proof (cases "u = ?c")
      case True
      with \<open>key (d (i + 1 + ?c)) = key (d i) \<and> i + ?c < N - 1\<close> show ?thesis by simp
    next
      case False
      with that have "?c < u" by simp
      with IH that show ?thesis by blast
    qed
    ultimately show ?thesis
      using IH by simp
  next
    case False
    have "tie_run key d i N crank count totalrank = (?c, ?t)"
      using False by (subst tie_run.simps) (auto simp: Let_def)
    with "1.prems" have "e = ?c" "tr = ?t" by simp_all
    with False show ?thesis by auto
  qed
qed

lemma set_ranks_apply:
  "set_ranks setr d i c r j = (if i \<le> j \<and> j \<le> i + c then setr r (d j) else d j)"
  by (induction c) (auto simp: Let_def)


lemma rank_loop_done: "\<not> i < N \<Longrightarrow> rank_loop key setr N i crank tt d = (d, tt)"
  by (subst rank_loop.simps) simp

lemma rank_loop_step:
  assumes "i < N" and ns: "key (d N) \<noteq> key (d (N - 1)) \<or> i + 1 < N"
  shows "\<exists>e. i + e < N \<and> (\<forall>u\<le>e. key (d (i + u)) = key (d i))
          \<and> (i + e + 1 < N \<longrightarrow> key (d (i + e + 1)) \<noteq> key (d i))
          \<and> rank_loop key setr N i crank tt d
              = rank_loop key setr N (i + (e + 1)) (crank + (e + 1)) (tt + e)
                  (set_ranks setr d i e (real (\<Sum>u\<leftarrow>[0..<e + 1]. crank + u) / real (e + 1)))"
proof (cases "key (d (i + 1)) = key (d i)")
  case False
  have "rank_loop key setr N i crank tt d
          = rank_loop key setr N (i + 1) (crank + 1) tt (d(i := setr (real crank) (d i)))"
    using assms(1) False by (subst rank_loop.simps) simp
  with False assms(1) show ?thesis
    by (intro exI [of _ 0]) simp
next
  case True
  obtain e tr where t: "tie_run key d i N crank 0 crank = (e, tr)"
    by fastforce
  note sp = tie_run_spec [OF t]
  have e: "0 < e" using sp by simp
  have eq: "rank_loop key setr N i crank tt d
              = rank_loop key setr N (i + (e + 1)) (crank + (e + 1)) (tt + e)
                  (set_ranks setr d i e (real tr / real (e + 1)))"
    using assms(1) True t by (subst rank_loop.simps) simp
  have "[0..<e + 1] = 0 # [0 + 1..<e + 1]"
    by (simp add: upt_conv_Cons)
  then have tr: "tr = (\<Sum>u\<leftarrow>[0..<e + 1]. crank + u)"
    using sp by simp
  have bound: "i + e < N"
  proof (cases "e = 1")
    case True
    have "i + 1 \<noteq> N"
    proof
      assume "i + 1 = N"
      then have "key (d N) = key (d (N - 1))" "\<not> i + 1 < N"
        using \<open>key (d (i + 1)) = key (d i)\<close> by auto
      with ns show False by simp
    qed
    with True assms(1) show ?thesis by simp
  next
    case False
    with e have "0 < e - 1" "e - 1 < e" by simp_all
    with sp have "i + (e - 1) < N - 1" by blast
    then show ?thesis by simp
  qed
  have all: "key (d (i + u)) = key (d i)" if le: "u \<le> e" for u
  proof -
    consider "u = 0" | "u = 1" | "0 < u - 1" "u - 1 < e"
      using le by arith
    then show ?thesis
    proof cases
      case 1
      then show ?thesis by simp
    next
      case 2
      with True show ?thesis by simp
    next
      case 3
      with sp have "key (d (i + 1 + (u - 1))) = key (d i)" by blast
      with 3 show ?thesis by simp
    qed
  qed
  have "i + e + 1 < N \<longrightarrow> key (d (i + e + 1)) \<noteq> key (d i)"
    using sp by (auto simp: add.commute add.left_commute)
  with bound all eq tr show ?thesis
    by (intro exI [of _ e]) simp
qed

lemma real_sum_list: "real (\<Sum>x\<leftarrow>xs. f x) = (\<Sum>x\<leftarrow>xs. real (f x))"
  by (induction xs) simp_all

lemma sum_list_shift: "(\<Sum>u\<leftarrow>[0..<n]. real (i + 1 + u)) = (\<Sum>j\<leftarrow>[i..<i + n]. real (j + 1))"
  by (induction n) (simp_all add: add.commute add.left_commute)


text \<open>
  The loop is right unless the last observation of the pool starts a run and the cell
  behind the pool has its key: from \<open>i\<close> on, every run \<open>l, \<dots>, l + c\<close> gets the mean of its
  natural ranks \<open>l + 1, \<dots>, l + c + 1\<close>, the count of ties grows by the number of observations
  that equal their predecessor, the ranks sum to the sum of the natural ranks, and
  nothing but the rank fields of the pool is written.
\<close>

lemma rank_loop_spec:
  fixes key :: "'a \<Rightarrow> real" and k :: "nat \<Rightarrow> real"
  assumes kp: "\<And>r x. key (setr r x) = key x" and gs: "\<And>r x. getr (setr r x) = r"
      and ns: "k N \<noteq> k (N - 1) \<or> (2 \<le> N \<and> k (N - 2) = k (N - 1))"
  shows "rank_loop key setr N i (i + 1) tt d = (d', tt') \<Longrightarrow> i \<le> N \<Longrightarrow> (\<forall>j. key (d j) = k j)
     \<Longrightarrow> i = 0 \<or> i = N \<or> k (i - 1) \<noteq> k i \<Longrightarrow>
     (\<forall>j. key (d' j) = k j)
     \<and> (\<forall>j. j < i \<or> N \<le> j \<longrightarrow> d' j = d j)
     \<and> (\<forall>l c. i \<le> l \<and> l + c < N \<and> (\<forall>t\<le>c. k (l + t) = k l) \<and> (l = 0 \<or> k (l - 1) \<noteq> k l)
            \<and> (l + c + 1 < N \<longrightarrow> k (l + c + 1) \<noteq> k l)
          \<longrightarrow> (\<forall>t\<le>c. getr (d' (l + t)) = real (\<Sum>u\<leftarrow>[0..<c + 1]. l + 1 + u) / real (c + 1)))
     \<and> tt' = tt + card {j. i < j \<and> j < N \<and> k j = k (j - 1)}
     \<and> (\<Sum>j\<leftarrow>[i..<N]. getr (d' j)) = (\<Sum>j\<leftarrow>[i..<N]. real (j + 1))
     \<and> (\<forall>j. i \<le> j \<and> j < N \<longrightarrow> (\<exists>r. 0 < r \<and> d' j = setr r (d j)))"
proof (induction "N - i" arbitrary: i tt d rule: less_induct)
  case less
  note run = less.prems(1) and iN = less.prems(2) and keys = less.prems(3) and start = less.prems(4)
  show ?case
  proof (cases "i < N")
    case False
    with iN have "i = N" by simp
    moreover have "d' = d" "tt' = tt"
      using run False by (simp_all add: rank_loop_done)
    ultimately show ?thesis
      using keys by auto
  next
    case True
    have "key (d N) \<noteq> key (d (N - 1)) \<or> i + 1 < N"
    proof (rule ccontr)
      assume "\<not> (key (d N) \<noteq> key (d (N - 1)) \<or> i + 1 < N)"
      with True keys have "k N = k (N - 1)" "i = N - 1" by auto
      with ns have "2 \<le> N" "k (i - 1) = k i"
        by (simp_all add: numeral_2_eq_2)
      with start \<open>i = N - 1\<close> show False by auto
    qed
    from rank_loop_step [where key = key and d = d and setr = setr and crank = "i + 1" and tt = tt,
        OF True this]
    obtain e where e: "i + e < N" and same: "\<And>u. u \<le> e \<Longrightarrow> k (i + u) = k i"
      and stop: "i + e + 1 < N \<Longrightarrow> k (i + e + 1) \<noteq> k i"
      and eq: "rank_loop key setr N i (i + 1) tt d
                 = rank_loop key setr N (i + (e + 1)) (i + 1 + (e + 1)) (tt + e)
                     (set_ranks setr d i e (real (\<Sum>u\<leftarrow>[0..<e + 1]. i + 1 + u) / real (e + 1)))"
      using keys by auto
    define i' where "i' = i + (e + 1)"
    define r where "r = real (\<Sum>u\<leftarrow>[0..<e + 1]. i + 1 + u) / real (e + 1)"
    define d1 where "d1 = set_ranks setr d i e r"
    have d1: "d1 j = (if i \<le> j \<and> j \<le> i + e then setr r (d j) else d j)" for j
      by (simp add: d1_def set_ranks_apply)
    have keys1: "\<forall>j. key (d1 j) = k j"
      using keys by (simp add: d1 kp)
    have i'N: "i' \<le> N" using e by (simp add: i'_def)
    have start': "i' = 0 \<or> i' = N \<or> k (i' - 1) \<noteq> k i'"
    proof (cases "i' < N")
      case True
      then have "k i' \<noteq> k i" using stop by (simp add: i'_def)
      moreover have "k (i' - 1) = k i" using same [of e] by (simp add: i'_def)
      ultimately show ?thesis by simp
    next
      case False
      with i'N show ?thesis by simp
    qed
    have run': "rank_loop key setr N i' (i' + 1) (tt + e) d1 = (d', tt')"
      using run eq by (simp add: i'_def d1_def r_def add.assoc)
    have "N - i' < N - i" using True by (simp add: i'_def)
    note IH = less.hyps [OF this run' i'N keys1 start']
    note ih1 = IH [THEN conjunct1]
    note ih2 = IH [THEN conjunct2, THEN conjunct1]
    note ih3 = IH [THEN conjunct2, THEN conjunct2, THEN conjunct1]
    note ih4 = IH [THEN conjunct2, THEN conjunct2, THEN conjunct2, THEN conjunct1]
    note ih5 = IH [THEN conjunct2, THEN conjunct2, THEN conjunct2, THEN conjunct2, THEN conjunct1]
    note ih6 = IH [THEN conjunct2, THEN conjunct2, THEN conjunct2, THEN conjunct2, THEN conjunct2]
    have frame: "d' j = d1 j" if "j < i' \<or> N \<le> j" for j
      using ih2 that by blast
    have c1: "\<forall>j. key (d' j) = k j"
      by (rule ih1)
    have c2: "\<forall>j. j < i \<or> N \<le> j \<longrightarrow> d' j = d j"
    proof (intro allI impI)
      fix j assume "j < i \<or> N \<le> j"
      then have "d' j = d1 j" "\<not> (i \<le> j \<and> j \<le> i + e)"
        using frame [of j] e by (auto simp: i'_def)
      then show "d' j = d j" by (simp add: d1)
    qed
    have c3: "getr (d' (l + t)) = real (\<Sum>u\<leftarrow>[0..<c + 1]. l + 1 + u) / real (c + 1)"
      if l: "i \<le> l" "l + c < N" and eqs: "\<And>t. t \<le> c \<Longrightarrow> k (l + t) = k l"
        and first: "l = 0 \<or> k (l - 1) \<noteq> k l" and last: "l + c + 1 < N \<Longrightarrow> k (l + c + 1) \<noteq> k l"
        and t: "t \<le> c" for l c t
    proof (cases "l = i")
      case True
      have "c = e"
      proof (rule ccontr)
        assume "c \<noteq> e"
        then consider "c < e" | "e < c" by linarith
        then show False
        proof cases
          case 1
          then have "k (i + (c + 1)) = k i" "i + c + 1 < N"
            using same [of "c + 1"] e by simp_all
          with last True show False by (simp add: add.assoc)
        next
          case 2
          then have "k (i + (e + 1)) = k i" "i + e + 1 < N"
            using eqs [of "e + 1"] l True by simp_all
          with stop show False by (simp add: add.assoc)
        qed
      qed
      have "d' (l + t) = d1 (l + t)"
        using frame [of "l + t"] t True \<open>c = e\<close> by (simp add: i'_def)
      also have "\<dots> = setr r (d (l + t))"
        using t True \<open>c = e\<close> by (simp add: d1)
      finally show ?thesis
        using True \<open>c = e\<close> by (simp add: gs r_def)
    next
      case False
      with l have "i < l" by simp
      have "i' \<le> l"
      proof (rule ccontr)
        assume "\<not> i' \<le> l"
        then have "l - i \<le> e" "l - 1 - i \<le> e" by (simp_all add: i'_def)
        from same [OF this(1)] same [OF this(2)] \<open>i < l\<close> have "k (l - 1) = k l"
          by simp
        with first \<open>i < l\<close> show False by simp
      qed
      with ih3 l eqs first last t show ?thesis
        by blast
    qed
    have c4: "tt' = tt + card {j. i < j \<and> j < N \<and> k j = k (j - 1)}"
    proof -
      have "{j. i < j \<and> j < N \<and> k j = k (j - 1)}
              = {i + 1..i + e} \<union> {j. i' < j \<and> j < N \<and> k j = k (j - 1)}" (is "?A = ?B \<union> ?C")
      proof (intro set_eqI iffI)
        fix j assume "j \<in> ?A"
        then have j: "i < j" "j < N" "k j = k (j - 1)" by simp_all
        have "j \<noteq> i'"
        proof
          assume "j = i'"
          with j have "k i' = k (i' - 1)" "i' < N" "0 < i'" by simp_all
          with start' show False by simp
        qed
        with j show "j \<in> ?B \<union> ?C" by (auto simp: i'_def)
      next
        fix j assume "j \<in> ?B \<union> ?C"
        then show "j \<in> ?A"
        proof
          assume "j \<in> ?B"
          then have j: "i < j" "j - i \<le> e" "j - 1 - i \<le> e" by auto
          from same [OF j(2)] same [OF j(3)] j(1) have "k j = k (j - 1)" by simp
          with j e show ?thesis by auto
        next
          assume "j \<in> ?C"
          then show ?thesis by (auto simp: i'_def)
        qed
      qed
      moreover have "?B \<inter> ?C = {}" by (auto simp: i'_def)
      moreover have "finite ?C" by simp
      ultimately have "card ?A = e + card ?C"
        by (simp add: card_Un_disjoint)
      with ih4 show ?thesis by simp
    qed
    have c5: "(\<Sum>j\<leftarrow>[i..<N]. getr (d' j)) = (\<Sum>j\<leftarrow>[i..<N]. real (j + 1))"
    proof -
      have "[i..<i' + (N - i')] = [i..<i'] @ [i'..<i' + (N - i')]"
        by (rule upt_add_eq_append) (simp add: i'_def)
      with i'N have split: "[i..<N] = [i..<i'] @ [i'..<N]"
        by simp
      have len: "length [i..<i'] = e + 1"
        by (simp add: i'_def)
      have "map (\<lambda>j. getr (d' j)) [i..<i'] = map (\<lambda>j. r) [i..<i']"
      proof (rule map_cong [OF refl])
        fix j assume "j \<in> set [i..<i']"
        then have "i \<le> j" "j \<le> i + e" "j < i'" by (auto simp: i'_def)
        with frame [of j] show "getr (d' j) = r" by (simp add: d1 gs)
      qed
      then have "(\<Sum>j\<leftarrow>[i..<i']. getr (d' j)) = real (e + 1) * r"
        by (simp only: sum_list_triv len)
      also have "\<dots> = real (\<Sum>u\<leftarrow>[0..<e + 1]. i + 1 + u)"
        unfolding r_def times_divide_eq_right by (rule nonzero_mult_div_cancel_left) simp
      also have "\<dots> = (\<Sum>u\<leftarrow>[0..<e + 1]. real (i + 1 + u))"
        by (rule real_sum_list)
      also have "\<dots> = (\<Sum>j\<leftarrow>[i..<i']. real (j + 1))"
        unfolding i'_def by (rule sum_list_shift)
      finally show ?thesis
        using ih5 by (simp only: split map_append sum_list_append)
    qed
    have c6: "\<exists>r. 0 < r \<and> d' j = setr r (d j)" if j: "i \<le> j" "j < N" for j
    proof (cases "j < i'")
      case True
      then have "d' j = setr r (d j)"
        using frame [of j] j by (simp add: d1 i'_def)
      moreover have "0 < (\<Sum>u\<leftarrow>[0..<e + 1]. i + 1 + u)"
        by simp
      then have "0 < r"
        unfolding r_def by (intro divide_pos_pos) simp_all
      ultimately show ?thesis by blast
    next
      case False
      then have "i' \<le> j" by simp
      with ih6 j obtain r' where "0 < r'" "d' j = setr r' (d1 j)" by blast
      moreover have "d1 j = d j"
        using \<open>i' \<le> j\<close> by (simp add: d1 i'_def)
      ultimately show ?thesis by auto
    qed
    show ?thesis
    proof (intro conjI)
      show "\<forall>j. key (d' j) = k j" by (rule c1)
      show "\<forall>j. j < i \<or> N \<le> j \<longrightarrow> d' j = d j" by (rule c2)
      show "\<forall>l c. i \<le> l \<and> l + c < N \<and> (\<forall>t\<le>c. k (l + t) = k l) \<and> (l = 0 \<or> k (l - 1) \<noteq> k l)
              \<and> (l + c + 1 < N \<longrightarrow> k (l + c + 1) \<noteq> k l)
            \<longrightarrow> (\<forall>t\<le>c. getr (d' (l + t)) = real (\<Sum>u\<leftarrow>[0..<c + 1]. l + 1 + u) / real (c + 1))"
        using c3 by blast
      show "tt' = tt + card {j. i < j \<and> j < N \<and> k j = k (j - 1)}" by (rule c4)
      show "(\<Sum>j\<leftarrow>[i..<N]. getr (d' j)) = (\<Sum>j\<leftarrow>[i..<N]. real (j + 1))" by (rule c5)
      show "\<forall>j. i \<le> j \<and> j < N \<longrightarrow> (\<exists>r. 0 < r \<and> d' j = setr r (d j))"
        using c6 by blast
    qed
  qed
qed


lemma sum_list_ranks: "(\<Sum>j\<leftarrow>[0..<N]. real (j + 1)) = real (N * (N + 1)) / 2"
  by (induction N) (simp_all add: field_simps)

lemma assign_ranks_behind_differs:
  assumes "value_D (d N) \<noteq> value_D (d (N - 1))
           \<or> (2 \<le> N \<and> value_D (d (N - 2)) = value_D (d (N - 1)))"
  shows "rank_sum (fst (assign_ranks d N)) N = real (N * (N + 1)) / 2"
    and "\<And>l c t. l + c < N \<Longrightarrow> (\<forall>t\<le>c. value_D (d (l + t)) = value_D (d l))
           \<Longrightarrow> l = 0 \<or> value_D (d (l - 1)) \<noteq> value_D (d l)
           \<Longrightarrow> l + c + 1 < N \<longrightarrow> value_D (d (l + c + 1)) \<noteq> value_D (d l)
           \<Longrightarrow> t \<le> c
           \<Longrightarrow> rank (fst (assign_ranks d N) (l + t)) = real (\<Sum>u\<leftarrow>[0..<c + 1]. l + 1 + u) / real (c + 1)"
    and "snd (assign_ranks d N) = card {j. 0 < j \<and> j < N \<and> value_D (d j) = value_D (d (j - 1))}"
    and "\<And>j. N \<le> j \<Longrightarrow> fst (assign_ranks d N) j = d j"
    and "\<And>j. j < N \<Longrightarrow> \<exists>r. 0 < r \<and> fst (assign_ranks d N) j = (d j)\<lparr>rank := r\<rparr>"
proof -
  obtain d' tt' where r: "rank_loop value_D (\<lambda>r x. x\<lparr>rank := r\<rparr>) N 0 (0 + 1) 0 d = (d', tt')"
    by fastforce
  have "(\<forall>j. value_D (d' j) = value_D (d j))
     \<and> (\<forall>j. j < 0 \<or> N \<le> j \<longrightarrow> d' j = d j)
     \<and> (\<forall>l c. 0 \<le> l \<and> l + c < N \<and> (\<forall>t\<le>c. value_D (d (l + t)) = value_D (d l))
            \<and> (l = 0 \<or> value_D (d (l - 1)) \<noteq> value_D (d l))
            \<and> (l + c + 1 < N \<longrightarrow> value_D (d (l + c + 1)) \<noteq> value_D (d l))
          \<longrightarrow> (\<forall>t\<le>c. rank (d' (l + t)) = real (\<Sum>u\<leftarrow>[0..<c + 1]. l + 1 + u) / real (c + 1)))
     \<and> tt' = 0 + card {j. 0 < j \<and> j < N \<and> value_D (d j) = value_D (d (j - 1))}
     \<and> (\<Sum>j\<leftarrow>[0..<N]. rank (d' j)) = (\<Sum>j\<leftarrow>[0..<N]. real (j + 1))
     \<and> (\<forall>j. 0 \<le> j \<and> j < N \<longrightarrow> (\<exists>r. 0 < r \<and> d' j = (d j)\<lparr>rank := r\<rparr>))"
    by (rule rank_loop_spec [where key = value_D and setr = "\<lambda>r x. x\<lparr>rank := r\<rparr>" and getr = rank
          and k = "\<lambda>j. value_D (d j)", OF _ _ assms r]) simp_all
  then have spec: "\<forall>j. N \<le> j \<longrightarrow> d' j = d j"
      "\<And>l c t. l + c < N \<Longrightarrow> (\<forall>t\<le>c. value_D (d (l + t)) = value_D (d l))
           \<Longrightarrow> l = 0 \<or> value_D (d (l - 1)) \<noteq> value_D (d l)
           \<Longrightarrow> l + c + 1 < N \<longrightarrow> value_D (d (l + c + 1)) \<noteq> value_D (d l)
           \<Longrightarrow> t \<le> c
           \<Longrightarrow> rank (d' (l + t)) = real (\<Sum>u\<leftarrow>[0..<c + 1]. l + 1 + u) / real (c + 1)"
      "tt' = card {j. 0 < j \<and> j < N \<and> value_D (d j) = value_D (d (j - 1))}"
      "(\<Sum>j\<leftarrow>[0..<N]. rank (d' j)) = (\<Sum>j\<leftarrow>[0..<N]. real (j + 1))"
      "\<forall>j. j < N \<longrightarrow> (\<exists>r. 0 < r \<and> d' j = (d j)\<lparr>rank := r\<rparr>)"
    by simp_all
  have a: "assign_ranks d N = (d', tt')"
    using r by (simp add: assign_ranks_def)
  show "rank_sum (fst (assign_ranks d N)) N = real (N * (N + 1)) / 2"
    unfolding a rank_sum_def fst_conv spec(4) by (rule sum_list_ranks)
  show "rank (fst (assign_ranks d N) (l + t)) = real (\<Sum>u\<leftarrow>[0..<c + 1]. l + 1 + u) / real (c + 1)"
    if "l + c < N" "\<forall>t\<le>c. value_D (d (l + t)) = value_D (d l)"
       "l = 0 \<or> value_D (d (l - 1)) \<noteq> value_D (d l)"
       "l + c + 1 < N \<longrightarrow> value_D (d (l + c + 1)) \<noteq> value_D (d l)" "t \<le> c" for l c t
    using spec(2) [OF that] by (simp add: a)
  show "snd (assign_ranks d N) = card {j. 0 < j \<and> j < N \<and> value_D (d j) = value_D (d (j - 1))}"
    using spec(3) by (simp add: a)
  show "fst (assign_ranks d N) j = d j" if "N \<le> j" for j
    using spec(1) that by (simp add: a)
  show "\<exists>r. 0 < r \<and> fst (assign_ranks d N) j = (d j)\<lparr>rank := r\<rparr>" if "j < N" for j
    using spec(5) that by (simp add: a)
qed

lemma assign_ranks_no_ties:
  assumes "\<forall>j<N. value_D (d j) \<noteq> value_D (d (j + 1))"
  shows "map (rank \<circ> fst (assign_ranks d N)) [0..<N] = map real [1..<N + 1]"
    and "snd (assign_ranks d N) = 0"
proof -
  show "map (rank \<circ> fst (assign_ranks d N)) [0..<N] = map real [1..<N + 1]"
  proof (cases "N = 0")
    case True
    then show ?thesis by simp
  next
    case False
    with assms have "value_D (d N) \<noteq> value_D (d (N - 1))"
      by (metis Suc_pred' add.commute diff_less less_numeral_extra(1) not_gr_zero plus_1_eq_Suc)
    then have behind: "value_D (d N) \<noteq> value_D (d (N - 1))
           \<or> (2 \<le> N \<and> value_D (d (N - 2)) = value_D (d (N - 1)))" ..
    have "rank (fst (assign_ranks d N) j) = real (j + 1)" if "j < N" for j
    proof -
      have "j = 0 \<or> value_D (d (j - 1)) \<noteq> value_D (d j)"
        using assms that by (cases j) auto
      moreover have "j + 0 + 1 < N \<longrightarrow> value_D (d (j + 0 + 1)) \<noteq> value_D (d j)"
        using assms that by (metis add.right_neutral)
      ultimately show ?thesis
        using assign_ranks_behind_differs(2) [OF behind, of j 0 0] that by simp
    qed
    then have "map (rank \<circ> fst (assign_ranks d N)) [0..<N] = map (\<lambda>j. real (j + 1)) [0..<N]"
      by simp
    also have "\<dots> = map real (map (\<lambda>j. j + 1) [0..<N])"
      by simp
    also have "map (\<lambda>j. j + 1) [0..<N] = [1..<N + 1]"
      using map_add_upt [of 1 N] by simp
    finally show ?thesis .
  qed
  show "snd (assign_ranks d N) = 0"
  proof (cases "N = 0")
    case True
    then show ?thesis
      by (simp add: assign_ranks_def rank_loop_done)
  next
    case False
    with assms have "value_D (d N) \<noteq> value_D (d (N - 1))"
      by (metis Suc_pred' add.commute diff_less less_numeral_extra(1) not_gr_zero plus_1_eq_Suc)
    then have behind: "value_D (d N) \<noteq> value_D (d (N - 1))
           \<or> (2 \<le> N \<and> value_D (d (N - 2)) = value_D (d (N - 1)))" ..
    have "{j. 0 < j \<and> j < N \<and> value_D (d j) = value_D (d (j - 1))} = {}"
    proof -
      have False if "0 < j" "j < N" "value_D (d j) = value_D (d (j - 1))" for j
        using assms that by (metis Suc_pred' add.commute less_imp_diff_less plus_1_eq_Suc)
      then show ?thesis by blast
    qed
    with assign_ranks_behind_differs(3) [OF behind] show ?thesis by simp
  qed
qed

text \<open>
  And when the last observation starts a run and the cell behind the pool has its key,
  the two share the rank \<open>N + 1/2\<close>, one tie too many is counted, and the rank of the cell
  behind the pool is overwritten.
\<close>

lemma run_card_split:
  fixes k :: "nat \<Rightarrow> real"
  assumes e: "i + e < N" and same: "\<And>u. u \<le> e \<Longrightarrow> k (i + u) = k i"
      and stop: "i + e + 1 < N \<Longrightarrow> k (i + e + 1) \<noteq> k i"
  shows "card {j. i < j \<and> j < N \<and> k j = k (j - 1)}
           = e + card {j. i + (e + 1) < j \<and> j < N \<and> k j = k (j - 1)}"
proof -
  have "{j. i < j \<and> j < N \<and> k j = k (j - 1)}
          = {i + 1..i + e} \<union> {j. i + (e + 1) < j \<and> j < N \<and> k j = k (j - 1)}" (is "?A = ?B \<union> ?C")
  proof (intro set_eqI iffI)
    fix j assume "j \<in> ?A"
    then have j: "i < j" "j < N" "k j = k (j - 1)" by simp_all
    have "j \<noteq> i + (e + 1)"
    proof
      assume "j = i + (e + 1)"
      with j have "k (i + e + 1) = k (i + e)" "i + e + 1 < N" by (simp_all add: add.assoc)
      with stop same [of e] show False by simp
    qed
    with j show "j \<in> ?B \<union> ?C" by auto
  next
    fix j assume "j \<in> ?B \<union> ?C"
    then show "j \<in> ?A"
    proof
      assume "j \<in> ?B"
      then have j: "i < j" "j - i \<le> e" "j - 1 - i \<le> e" by auto
      from same [OF j(2)] same [OF j(3)] j(1) have "k j = k (j - 1)" by simp
      with j e show ?thesis by auto
    next
      assume "j \<in> ?C"
      then show ?thesis by auto
    qed
  qed
  moreover have "?B \<inter> ?C = {}" by auto
  moreover have "finite ?C" by simp
  ultimately show ?thesis
    by (simp add: card_Un_disjoint)
qed

lemma run_rank_sum:
  "real (e + 1) * (real (\<Sum>u\<leftarrow>[0..<e + 1]. i + 1 + u) / real (e + 1))
     = (\<Sum>j\<leftarrow>[i..<i + (e + 1)]. real (j + 1))"
proof -
  have "real (e + 1) * (real (\<Sum>u\<leftarrow>[0..<e + 1]. i + 1 + u) / real (e + 1))
          = real (\<Sum>u\<leftarrow>[0..<e + 1]. i + 1 + u)"
    unfolding times_divide_eq_right by (rule nonzero_mult_div_cancel_left) simp
  also have "\<dots> = (\<Sum>u\<leftarrow>[0..<e + 1]. real (i + 1 + u))"
    by (rule real_sum_list)
  also have "\<dots> = (\<Sum>j\<leftarrow>[i..<i + (e + 1)]. real (j + 1))"
    by (rule sum_list_shift)
  finally show ?thesis .
qed

lemma rank_loop_last_step:
  assumes tie: "key (d (i + 1)) = key (d i)"
  shows "rank_loop key setr (i + 1) i crank tt d
           = (set_ranks setr d i 1 (real (crank + (crank + 1)) / 2), tt + 1)"
proof -
  have t: "tie_run key d i (i + 1) crank 0 crank = (1, crank + (crank + 1))"
    by (subst tie_run.simps) (simp add: Let_def)
  have "rank_loop key setr (i + 1) i crank tt d
          = rank_loop key setr (i + 1) (i + (1 + 1)) (crank + (1 + 1)) (tt + 1)
              (set_ranks setr d i 1 (real (crank + (crank + 1)) / real (1 + 1)))"
    by (subst rank_loop.simps) (simp only: t prod.case Let_def tie simp_thms if_True less_add_one)
  also have "\<dots> = (set_ranks setr d i 1 (real (crank + (crank + 1)) / 2), tt + 1)"
    by (subst rank_loop_done) simp_all
  finally show ?thesis .
qed

lemma rank_loop_behind_equal:
  fixes key :: "'a \<Rightarrow> real" and k :: "nat \<Rightarrow> real"
  assumes kp: "\<And>r x. key (setr r x) = key x" and gs: "\<And>r x. getr (setr r x) = r"
      and tie: "k N = k (N - 1)" and st: "N = 1 \<or> k (N - 2) \<noteq> k (N - 1)"
  shows "rank_loop key setr N i (i + 1) tt d = (d', tt') \<Longrightarrow> i < N \<Longrightarrow> (\<forall>j. key (d j) = k j)
     \<Longrightarrow> i = 0 \<or> k (i - 1) \<noteq> k i \<Longrightarrow>
     (\<forall>j. j < i \<longrightarrow> d' j = d j)
     \<and> d' (N - 1) = setr (real N + 1 / 2) (d (N - 1))
     \<and> d' N = setr (real N + 1 / 2) (d N)
     \<and> tt' = tt + card {j. i < j \<and> j < N \<and> k j = k (j - 1)} + 1
     \<and> (\<Sum>j\<leftarrow>[i..<N]. getr (d' j)) = (\<Sum>j\<leftarrow>[i..<N]. real (j + 1)) + 1 / 2"
proof (induction "N - i" arbitrary: i tt d rule: less_induct)
  case less
  note run = less.prems(1) and iN = less.prems(2) and keys = less.prems(3) and start = less.prems(4)
  show ?case
  proof (cases "i + 1 < N")
    case False
    with iN have N: "N = i + 1" by simp
    have "key (d (i + 1)) = key (d i)"
      using tie keys by (simp add: N)
    from rank_loop_last_step [where key = key and d = d and setr = setr and crank = "i + 1" and tt = tt,
        OF this] run
    have res: "d' = set_ranks setr d i 1 (real (i + 1 + (i + 1 + 1)) / 2)" "tt' = tt + 1"
      unfolding N by simp_all
    have r: "real (i + 1 + (i + 1 + 1)) / 2 = real (i + 1) + 1 / 2"
      by (simp add: field_simps)
    have none: "{j. i < j \<and> j < i + 1 \<and> k j = k (j - 1)} = {}"
      by auto
    show ?thesis
      unfolding N res r none by (simp add: set_ranks_apply gs)
  next
    case True
    then have "key (d N) \<noteq> key (d (N - 1)) \<or> i + 1 < N" ..
    from rank_loop_step [where key = key and d = d and setr = setr and crank = "i + 1" and tt = tt,
        OF iN this]
    obtain e where e: "i + e < N" and same: "\<And>u. u \<le> e \<Longrightarrow> k (i + u) = k i"
      and stop: "i + e + 1 < N \<Longrightarrow> k (i + e + 1) \<noteq> k i"
      and eq: "rank_loop key setr N i (i + 1) tt d
                 = rank_loop key setr N (i + (e + 1)) (i + 1 + (e + 1)) (tt + e)
                     (set_ranks setr d i e (real (\<Sum>u\<leftarrow>[0..<e + 1]. i + 1 + u) / real (e + 1)))"
      using keys by auto
    define i' where "i' = i + (e + 1)"
    define r where "r = real (\<Sum>u\<leftarrow>[0..<e + 1]. i + 1 + u) / real (e + 1)"
    define d1 where "d1 = set_ranks setr d i e r"
    have d1: "d1 j = (if i \<le> j \<and> j \<le> i + e then setr r (d j) else d j)" for j
      by (simp add: d1_def set_ranks_apply)
    have keys1: "\<forall>j. key (d1 j) = k j"
      using keys by (simp add: d1 kp)
    have "i + e \<noteq> N - 1"
    proof
      assume last: "i + e = N - 1"
      from True last have "0 < e" "N \<noteq> 1" by simp_all
      then have "e - 1 \<le> e" "i + (e - 1) = N - 2" using last by simp_all
      with same [of "e - 1"] same [of e] last have "k (N - 2) = k (N - 1)"
        by simp
      with st \<open>N \<noteq> 1\<close> show False by simp
    qed
    with e have i'N: "i' < N" by (simp add: i'_def)
    have start': "i' = 0 \<or> k (i' - 1) \<noteq> k i'"
      using stop same [of e] i'N by (simp add: i'_def)
    have run': "rank_loop key setr N i' (i' + 1) (tt + e) d1 = (d', tt')"
      using run eq by (simp add: i'_def d1_def r_def add.assoc)
    have "N - i' < N - i" using iN by (simp add: i'_def)
    note IH = less.hyps [OF this run' i'N keys1 start']
    note ih1 = IH [THEN conjunct1]
    note ih2 = IH [THEN conjunct2, THEN conjunct1]
    note ih3 = IH [THEN conjunct2, THEN conjunct2, THEN conjunct1]
    note ih4 = IH [THEN conjunct2, THEN conjunct2, THEN conjunct2, THEN conjunct1]
    note ih5 = IH [THEN conjunct2, THEN conjunct2, THEN conjunct2, THEN conjunct2]
    have frame: "d' j = d1 j" if "j < i'" for j
      using ih1 that by blast
    have c1: "\<forall>j. j < i \<longrightarrow> d' j = d j"
      using frame by (simp add: d1 i'_def)
    have "i + e < N - 1"
      using i'N by (simp add: i'_def)
    then have "\<not> N - 1 \<le> i + e" "\<not> N \<le> i + e"
      by simp_all
    then have behind1: "d1 (N - 1) = d (N - 1)" "d1 N = d N"
      by (simp_all add: d1)
    have c2: "d' (N - 1) = setr (real N + 1 / 2) (d (N - 1))"
      by (rule ih2 [unfolded behind1])
    have c3: "d' N = setr (real N + 1 / 2) (d N)"
      by (rule ih3 [unfolded behind1])
    have c4: "tt' = tt + card {j. i < j \<and> j < N \<and> k j = k (j - 1)} + 1"
      using ih4 run_card_split [of i e N k, OF e same stop] by (simp add: i'_def)
    have c5: "(\<Sum>j\<leftarrow>[i..<N]. getr (d' j)) = (\<Sum>j\<leftarrow>[i..<N]. real (j + 1)) + 1 / 2"
    proof -
      have "[i..<i' + (N - i')] = [i..<i'] @ [i'..<i' + (N - i')]"
        by (rule upt_add_eq_append) (simp add: i'_def)
      with i'N have split: "[i..<N] = [i..<i'] @ [i'..<N]"
        by simp
      have len: "length [i..<i'] = e + 1"
        by (simp add: i'_def)
      have "map (\<lambda>j. getr (d' j)) [i..<i'] = map (\<lambda>j. r) [i..<i']"
      proof (rule map_cong [OF refl])
        fix j assume "j \<in> set [i..<i']"
        then have "i \<le> j" "j \<le> i + e" "j < i'" by (auto simp: i'_def)
        with frame [of j] show "getr (d' j) = r" by (simp add: d1 gs)
      qed
      then have "(\<Sum>j\<leftarrow>[i..<i']. getr (d' j)) = real (e + 1) * r"
        by (simp only: sum_list_triv len)
      also have "\<dots> = (\<Sum>j\<leftarrow>[i..<i']. real (j + 1))"
        unfolding r_def i'_def by (rule run_rank_sum)
      finally show ?thesis
        using ih5 by (simp only: split map_append sum_list_append add.assoc)
    qed
    from c1 c2 c3 c4 c5 show ?thesis
      by (intro conjI)
  qed
qed


lemma assign_ranks_behind_equal:
  assumes "1 \<le> N" and "value_D (d N) = value_D (d (N - 1))"
      and "N = 1 \<or> value_D (d (N - 2)) \<noteq> value_D (d (N - 1))"
  shows "rank (fst (assign_ranks d N) (N - 1)) = real N + 1 / 2"
    and "fst (assign_ranks d N) N = (d N)\<lparr>rank := real N + 1 / 2\<rparr>"
    and "snd (assign_ranks d N) = card {j. 0 < j \<and> j < N \<and> value_D (d j) = value_D (d (j - 1))} + 1"
    and "rank_sum (fst (assign_ranks d N)) N = real (N * (N + 1)) / 2 + 1 / 2"
proof -
  obtain d' tt' where r: "rank_loop value_D (\<lambda>r x. x\<lparr>rank := r\<rparr>) N 0 (0 + 1) 0 d = (d', tt')"
    by fastforce
  have "(\<forall>j. j < 0 \<longrightarrow> d' j = d j)
     \<and> d' (N - 1) = (d (N - 1))\<lparr>rank := real N + 1 / 2\<rparr>
     \<and> d' N = (d N)\<lparr>rank := real N + 1 / 2\<rparr>
     \<and> tt' = 0 + card {j. 0 < j \<and> j < N \<and> value_D (d j) = value_D (d (j - 1))} + 1
     \<and> (\<Sum>j\<leftarrow>[0..<N]. rank (d' j)) = (\<Sum>j\<leftarrow>[0..<N]. real (j + 1)) + 1 / 2"
    by (rule rank_loop_behind_equal [where key = value_D and setr = "\<lambda>r x. x\<lparr>rank := r\<rparr>"
          and getr = rank and k = "\<lambda>j. value_D (d j)", OF _ _ assms(2,3) r]) (use assms(1) in simp_all)
  then have spec: "d' (N - 1) = (d (N - 1))\<lparr>rank := real N + 1 / 2\<rparr>"
      "d' N = (d N)\<lparr>rank := real N + 1 / 2\<rparr>"
      "tt' = card {j. 0 < j \<and> j < N \<and> value_D (d j) = value_D (d (j - 1))} + 1"
      "(\<Sum>j\<leftarrow>[0..<N]. rank (d' j)) = (\<Sum>j\<leftarrow>[0..<N]. real (j + 1)) + 1 / 2"
    by simp_all
  have a: "assign_ranks d N = (d', tt')"
    using r by (simp add: assign_ranks_def)
  show "rank (fst (assign_ranks d N) (N - 1)) = real N + 1 / 2"
    unfolding a fst_conv spec(1) by simp
  show "fst (assign_ranks d N) N = (d N)\<lparr>rank := real N + 1 / 2\<rparr>"
    by (simp add: a spec(2))
  show "snd (assign_ranks d N) = card {j. 0 < j \<and> j < N \<and> value_D (d j) = value_D (d (j - 1))} + 1"
    by (simp add: a spec(3))
  show "rank_sum (fst (assign_ranks d N)) N = real (N * (N + 1)) / 2 + 1 / 2"
    unfolding a rank_sum_def fst_conv spec(4) by (simp only: sum_list_ranks)
qed

lemma assign_ranks_rank_sum_iff:
  assumes "1 \<le> N"
  shows "rank_sum (fst (assign_ranks d N)) N = real (N * (N + 1)) / 2
           \<longleftrightarrow> value_D (d N) \<noteq> value_D (d (N - 1))
               \<or> (2 \<le> N \<and> value_D (d (N - 2)) = value_D (d (N - 1)))"
proof
  assume sum: "rank_sum (fst (assign_ranks d N)) N = real (N * (N + 1)) / 2"
  show "value_D (d N) \<noteq> value_D (d (N - 1)) \<or> (2 \<le> N \<and> value_D (d (N - 2)) = value_D (d (N - 1)))"
  proof (rule ccontr)
    assume "\<not> ?thesis"
    then have "value_D (d N) = value_D (d (N - 1))"
        "N = 1 \<or> value_D (d (N - 2)) \<noteq> value_D (d (N - 1))"
      using assms by auto
    from assign_ranks_behind_equal(4) [OF assms this] sum show False
      by simp
  qed
next
  assume "value_D (d N) \<noteq> value_D (d (N - 1)) \<or> (2 \<le> N \<and> value_D (d (N - 2)) = value_D (d (N - 1)))"
  then show "rank_sum (fst (assign_ranks d N)) N = real (N * (N + 1)) / 2"
    by (rule assign_ranks_behind_differs(1))
qed

section \<open>Ranks of a pool that is followed by an equal value\<close>

text \<open>
  Claim C1: after \<^verbatim>\<open>assign_ranks\<close> on a sorted pool of \<open>N \<ge> 1\<close> observations the ranks sum
  to \<open>N (N + 1) / 2\<close>, and without ties they are a permutation of \<open>1, \<dots>, N\<close>.
  At \<open>i = N - 1\<close> the loop compares \<^verbatim>\<open>d[i+1]\<close>, the cell behind the pool, with the last
  observation (the inner loop has the guard \<^verbatim>\<open>i+count<N-1\<close>, this first comparison has
  none). Here the pool is \<open>1, 4, 9\<close> (no ties, \<open>N = 3\<close>) and the cell behind it holds another
  \<open>9\<close>: the ranks are \<open>1, 2, 7/2\<close> and sum to \<open>13/2\<close>, not to \<open>6\<close>. By
  \<open>assign_ranks_rank_sum_iff\<close> this is the one way for the sum to be wrong, and by
  \<open>assign_ranks_no_ties\<close> the ranks are \<open>1, \<dots>, N\<close> when the cell behind the pool is
  also free of ties.
\<close>

theorem assign_ranks_cell_behind_pool:
  "map (rank \<circ> fst (assign_ranks (cells [mkD 1 0 0, mkD 4 2 0, mkD 9 0 0, mkD 9 0 4] (mkD 0 0 0)) 3))
       [0..<3] = [1, 2, 7 / 2]
   \<and> rank_sum (fst (assign_ranks (cells [mkD 1 0 0, mkD 4 2 0, mkD 9 0 0, mkD 9 0 4] (mkD 0 0 0)) 3)) 3
       = 13 / 2"
  by code_simp

text \<open>
  Claim C2: every observation of a maximal run of \<open>c + 1\<close> equal keys that starts at natural
  rank \<open>r\<close> gets the rank \<open>(r + \<dots> + (r + c)) / (c + 1)\<close>, and the function returns the sum
  of the \<open>c\<close> over the runs (\<open>assign_ranks_behind_differs\<close>, when the cell behind the pool
  does not interfere).
  mann-whit.cc on the file \<open>three_blocks\<close>: the first test (samples 1 and 2) leaves
  \<open>1, 2, 3, 9\<close> in the buffer \<^verbatim>\<open>pair\<close>; the second test (samples 1 and 3) sorts \<open>1, 4, 9\<close>
  into the first three cells, and the fourth still holds the \<open>9\<close>. The observation \<open>9\<close>
  is a run of one at natural rank 3; it is given the rank \<open>7/2\<close>, and one tie is
  counted where there is none.
\<close>

theorem mw_second_test_pool:
  "(case check_file three_blocks zeroN of
      Inl e \<Rightarrow> False
    | Inr (ndist, N, Nsamp) \<Rightarrow>
        (let d = snd (read_file three_blocks zeroD);
             pair1 = fst (mw_pool Nsamp d zeroD 0 1);
             (pair2, t) = mw_pool Nsamp d pair1 0 2
         in take 2 (ordered_pairs ndist) = [(0, 1), (0, 2)]
            \<and> window pair2 3 = [mkD 1 0 1, mkD 4 2 2, mkD 9 0 (7 / 2)]
            \<and> t = 1))"
  by code_simp


text \<open>
  The same in the run of the program: the ranked pools and tie counts that the first two
  tests of mann-whit.cc on \<open>three_blocks\<close> print.
\<close>

lemma three_blocks_check:
  "check_file three_blocks zeroN = Inr (3, 5, zeroN(0 := 2, 1 := 2, 2 := 1))"
  by (simp add: check_file_def three_blocks_def MAX_DISTS_def zeroN_def numeral_2_eq_2 numeral_3_eq_3 fun_upd_twist)

lemma ordered_pairs_3: "ordered_pairs 3 = [(0, 1), (0, 2), (1, 0), (1, 2), (2, 0), (2, 1)]"
  by code_simp

lemma three_blocks_pools:
  "(let Nsamp = zeroN(0 := 2, 1 := 2, 2 := 1);
        d = snd (read_file three_blocks zeroD);
        (pair1, t1) = mw_pool Nsamp d zeroD 0 1;
        (pair2, t2) = mw_pool Nsamp d pair1 0 2
    in (window pair1 (Nsamp 0 + Nsamp 1), t1) = ([mkD 1 0 1, mkD 2 1 2, mkD 3 1 3, mkD 9 0 4], 0)
       \<and> (window pair2 (Nsamp 0 + Nsamp 2), t2) = ([mkD 1 0 1, mkD 4 2 2, mkD 9 0 (7 / 2)], 1))"
  by code_simp

lemma mw_stdout_three_blocks:
  "take 2 (main_mw_stdout zeroD zeroD three_blocks)
     = [([mkD 1 0 1, mkD 2 1 2, mkD 3 1 3, mkD 9 0 4], 0),
        ([mkD 1 0 1, mkD 4 2 2, mkD 9 0 (7 / 2)], 1)]"
  using three_blocks_pools
  by (simp add: main_mw_stdout_def three_blocks_check ordered_pairs_3 case_prod_beta Let_def)

section \<open>The signed-rank test\<close>

text \<open>
  The sorted buffer holds no zero difference, and the signed ranks of a pair add up as they
  should unless the cell behind the \<open>n\<close> nonzero differences ties with the last of them.
\<close>

lemma write_back_apply:
  "length xs = N \<Longrightarrow>
     fold (\<lambda>(i, x) d'. d'(i := x)) (zip [0..<N] xs) d j = (if j < N then xs ! j else d j)"
proof (induction xs arbitrary: N rule: rev_induct)
  case Nil
  then show ?case by simp
next
  case (snoc x xs)
  then obtain M where N: "N = Suc M" and M: "length xs = M"
    by (cases N) auto
  have "zip [0..<N] (xs @ [x]) = zip [0..<M] xs @ [(M, x)]"
    using M by (simp add: N)
  with snoc.IH [OF M] M show ?case
    by (auto simp: N nth_append less_Suc_eq)
qed

lemma qsort_apply:
  "qsort key d N j = (if j < N then sort_key key (window d N) ! j else d j)"
  unfolding qsort_def by (rule write_back_apply) (simp add: window_def)

lemma qsort_cell_in_window: "j < N \<Longrightarrow> qsort key d N j \<in> d ` {0..<N}"
proof -
  assume "j < N"
  then have "sort_key key (window d N) ! j \<in> set (sort_key key (window d N))"
    by (intro nth_mem) (simp add: window_def)
  with \<open>j < N\<close> show ?thesis
    by (simp add: qsort_apply window_def)
qed

lemma diff_loop_nonzero:
  "fold (diff_step d Nsamp0 a b) [0..<M] (p, t) = (p', t') \<Longrightarrow> j < M \<Longrightarrow> diff (p' j) \<noteq> 0"
proof (induction M arbitrary: p' t')
  case 0
  then show ?case by simp
next
  case (Suc M)
  obtain p1 t1 where f: "fold (diff_step d Nsamp0 a b) [0..<M] (p, t) = (p1, t1)"
    by fastforce
  with Suc.prems(1) have step: "diff_step d Nsamp0 a b M (p1, t1) = (p', t')"
    by simp
  show ?case
  proof (cases "j = M")
    case True
    with step show ?thesis
      by (auto simp: diff_step_def Let_def split: if_splits)
  next
    case False
    with Suc.prems(2) have "j < M" by simp
    from Suc.IH [OF f this] have "diff (p1 j) \<noteq> 0" .
    moreover have "p' j = p1 j"
      using step False by (auto simp: diff_step_def Let_def split: if_splits)
    ultimately show ?thesis by simp
  qed
qed

lemma sorted_diffs_nonzero:
  assumes "sorted_diffs d Nsamp0 p a b = (p0, ties)" and "j < Nsamp0"
  shows "diff (p0 j) \<noteq> 0"
proof -
  obtain p1 t1 where f: "fold (diff_step d Nsamp0 a b) [0..<Nsamp0] (p, 0) = (p1, t1)"
    by fastforce
  with assms(1) have p0: "p0 = qsort comparediff p1 Nsamp0"
    by (simp add: sorted_diffs_def)
  from qsort_cell_in_window [OF assms(2), of comparediff p1] obtain i
    where "i < Nsamp0" "p0 j = p1 i"
    by (auto simp: p0)
  with diff_loop_nonzero [OF f] show ?thesis by simp
qed

lemma sign_loop_apply:
  "fold sign_step [0..<n] p j =
     (if j < n then (p j)\<lparr>sigrank := (if diff (p j) < 0 then - rank_P (p j) else rank_P (p j))\<rparr>
      else p j)"
  by (induction n) (auto simp: sign_step_def less_Suc_eq)

lemma assign_ranks_P_behind_differs:
  assumes "myabs (diff (p n)) \<noteq> myabs (diff (p (n - 1)))
           \<or> (2 \<le> n \<and> myabs (diff (p (n - 2))) = myabs (diff (p (n - 1))))"
  shows "(\<Sum>j\<leftarrow>[0..<n]. rank_P (fst (assign_ranks_P p n) j)) = real (n * (n + 1)) / 2"
    and "\<And>j. j < n \<Longrightarrow> \<exists>r. 0 < r \<and> fst (assign_ranks_P p n) j = (p j)\<lparr>rank_P := r\<rparr>"
proof -
  obtain p' tt' where r: "rank_loop (\<lambda>x. myabs (diff x)) (\<lambda>r x. x\<lparr>rank_P := r\<rparr>) n 0 (0 + 1) 0 p = (p', tt')"
    by fastforce
  note spec = rank_loop_spec [where key = "\<lambda>x. myabs (diff x)" and setr = "\<lambda>r x. x\<lparr>rank_P := r\<rparr>"
      and getr = rank_P and k = "\<lambda>j. myabs (diff (p j))", OF _ _ assms r]
  have a: "assign_ranks_P p n = (p', tt')"
    using r by (simp add: assign_ranks_P_def)
  have "(\<Sum>j\<leftarrow>[0..<n]. rank_P (p' j)) = (\<Sum>j\<leftarrow>[0..<n]. real (j + 1))"
    using spec by simp
  then show "(\<Sum>j\<leftarrow>[0..<n]. rank_P (fst (assign_ranks_P p n) j)) = real (n * (n + 1)) / 2"
    unfolding a fst_conv by (simp only: sum_list_ranks)
  have "\<forall>j. 0 \<le> j \<and> j < n \<longrightarrow> (\<exists>r. 0 < r \<and> p' j = (p j)\<lparr>rank_P := r\<rparr>)"
    using spec by simp
  then show "\<exists>r. 0 < r \<and> fst (assign_ranks_P p n) j = (p j)\<lparr>rank_P := r\<rparr>" if "j < n" for j
    using that by (simp add: a)
qed

lemma signed_ranks_sum:
  assumes s: "sorted_diffs d Nsamp0 p a b = (p0, ties)" and n: "n = Nsamp0 - ties"
      and behind: "myabs (diff (p0 n)) \<noteq> myabs (diff (p0 (n - 1)))
           \<or> (2 \<le> n \<and> myabs (diff (p0 (n - 2))) = myabs (diff (p0 (n - 1))))"
  shows "Tplus_of (fst (signed_ranks d Nsamp0 p a b)) n + Tminus_of (fst (signed_ranks d Nsamp0 p a b)) n
           = real (n * (n + 1)) / 2"
proof -
  define p1 where "p1 = fst (assign_ranks_P p0 n)"
  define p2 where "p2 = fold sign_step [0..<n] p1"
  have sr: "fst (signed_ranks d Nsamp0 p a b) = p2"
    by (simp add: signed_ranks_def s n p1_def p2_def case_prod_beta Let_def)
  have cell: "(if diff (p2 j) > 0 then sigrank (p2 j) else 0)
                + (if diff (p2 j) < 0 then myabs (sigrank (p2 j)) else 0) = rank_P (p1 j)"
    if "j < n" for j
  proof -
    from that n have "j < Nsamp0" by simp
    from sorted_diffs_nonzero [OF s this] have nz: "diff (p0 j) \<noteq> 0" .
    from assign_ranks_P_behind_differs(2) [OF behind that] obtain r
      where r: "0 < r" "p1 j = (p0 j)\<lparr>rank_P := r\<rparr>"
      by (auto simp: p1_def)
    show ?thesis
      using that nz r by (simp add: p2_def sign_loop_apply myabs_def)
  qed
  have "Tplus_of p2 n + Tminus_of p2 n
          = (\<Sum>j\<leftarrow>[0..<n]. (if diff (p2 j) > 0 then sigrank (p2 j) else 0)
                             + (if diff (p2 j) < 0 then myabs (sigrank (p2 j)) else 0))"
    by (simp add: Tplus_of_def Tminus_of_def sum_list_addf)
  also have "\<dots> = (\<Sum>j\<leftarrow>[0..<n]. rank_P (p1 j))"
    by (rule arg_cong [where f = sum_list], rule map_cong) (simp_all add: cell)
  also have "\<dots> = real (n * (n + 1)) / 2"
    unfolding p1_def by (rule assign_ranks_P_behind_differs(1) [OF behind])
  finally show ?thesis
    by (simp add: sr)
qed


text \<open>
  Claim C9: for a pair with \<open>n \<ge> 1\<close> nonzero differences, \<open>Tplus + Tminus = n (n + 1) / 2\<close>.
  A zero difference is replaced by \<^verbatim>\<open>10e99\<close>, sorted to the end of \<^verbatim>\<open>p\<close>, and
  \<^verbatim>\<open>assign_ranks(p, n)\<close> compares the last of the \<open>n\<close> nonzero differences with the cell
  behind it. In \<open>huge_difference\<close> the differences are \<open>1, 2, 3, 10\<^sup>1\<^sup>0\<^sup>0, 0, 0\<close>: \<open>n = 4\<close>, the
  largest difference ties with the replaced zero behind it and gets the rank \<open>9/2\<close>, and
  \<open>Tplus + Tminus\<close> is \<open>21/2\<close>, not \<open>10\<close>.
\<close>

theorem signed_ranks_huge_difference:
  "(case signed_ranks (snd (read_file huge_difference zeroD)) 6 zeroP 0 1 of
      (p, n, ties) \<Rightarrow>
        n = 4 \<and> ties = 2 \<and> map (rank_P \<circ> p) [0..<4] = [1, 2, 3, 9 / 2]
        \<and> Tplus_of p n = 21 / 2 \<and> Tminus_of p n = 0)"
  by code_simp

lemma one_positive_ranks:
  "(case signed_ranks (snd (read_file one_positive zeroD)) 5 zeroP 0 1 of
      (p, n, ties) \<Rightarrow> n = 5 \<and> ties = 0 \<and> Tplus_of p n = 1 \<and> scan_upper n (Tplus_of p n) 0 = 3)"
  by code_simp

lemma W_row_5: "W 5 3 = 1 \<and> W 5 4 = 3 \<and> Wsig 3 = 0.05 \<and> Wsig 4 = 0.1"
  by code_simp

text \<open>
  The scan of the table stops at the first of the columns \<open>0, \<dots>, 7\<close> whose critical value is
  not below \<open>Tplus\<close>, or at column 8.
\<close>

lemma scan_upper_first_not_below:
  "j \<le> 8 \<Longrightarrow>
     j \<le> scan_upper n Tplus j \<and> scan_upper n Tplus j \<le> 8
     \<and> (\<forall>i. j \<le> i \<and> i < scan_upper n Tplus j \<longrightarrow> W n i < Tplus)
     \<and> (scan_upper n Tplus j < 8 \<longrightarrow> Tplus \<le> W n (scan_upper n Tplus j))"
proof (induction n Tplus j rule: scan_upper.induct)
  case (1 n Tplus j)
  show ?case
  proof (cases "W n j < Tplus \<and> j < 8")
    case True
    then have eq: "scan_upper n Tplus j = scan_upper n Tplus (j + 1)"
      by (subst scan_upper.simps) simp
    from True have "j + 1 \<le> 8" by simp
    note IH = "1.IH" [OF True this]
    have "W n i < Tplus" if "j \<le> i" "i < scan_upper n Tplus (j + 1)" for i
    proof (cases "i = j")
      case True
      with \<open>W n j < Tplus \<and> j < 8\<close> show ?thesis by simp
    next
      case False
      with that have "j + 1 \<le> i" by simp
      with IH that show ?thesis by blast
    qed
    with IH show ?thesis
      unfolding eq by auto
  next
    case False
    then have "scan_upper n Tplus j = j"
      by (subst scan_upper.simps) auto
    with False "1.prems" show ?thesis by auto
  qed
qed

text \<open>
  Claim C3: on the exact-table path the reported p-value is the first of the nine levels
  whose critical value for \<open>n\<close> exceeds \<open>Tplus\<close>, and \<open>0.5\<close> if there is none.
  The loop \<^verbatim>\<open>while(W[n][j]<Tplus && j <8) j++;\<close> stops at the first critical value
  that is not below \<open>Tplus\<close>, so also at one that equals it. In \<open>one_positive\<close>, \<open>n = 5\<close> and
  \<open>Tplus = 1\<close>; \<open>W[5][3] = 1\<close> does not exceed \<open>Tplus\<close> and \<open>W[5][4] = 3\<close> is the first that
  does, with level \<open>0.1\<close>; the program reports the level of \<open>W[5][3]\<close>, \<open>0.05\<close>.
\<close>

theorem wilcoxon_pair_equal_critical_value:
  "map_sum id snd (wilcoxon_pair myZ (snd (read_file one_positive zeroD)) 5 zeroP 0 1)
     = Inr (Exact, Better 2 1 (Some 0.05))"
proof -
  obtain p where s: "signed_ranks (snd (read_file one_positive zeroD)) 5 zeroP 0 1 = (p, 5, 0)"
    and f: "Tplus_of p 5 = 1" "scan_upper 5 1 0 = 3"
    using one_positive_ranks
    by (cases "signed_ranks (snd (read_file one_positive zeroD)) 5 zeroP 0 1") auto
  show ?thesis
    using W_row_5 unfolding wilcoxon_pair_def s by (simp add: f Let_def)
qed

text \<open>
  The whole run on \<open>one_positive\<close>: the output file has the level \<open>0.05\<close> for the pair
  \<open>(1, 2)\<close>. For the pair \<open>(2, 1)\<close> \<open>Tplus = 14\<close>, no critical value of the row reaches it,
  and the scan ends at column 8 with the level \<open>0.5\<close>.
\<close>

lemma one_positive_check:
  "check_file_W one_positive zeroN = Inr (2, 10, zeroN(0 := 5, 1 := 5))"
  by (simp add: check_file_W_def one_positive_def MAX_DISTS_def zeroN_def eval_nat_numeral fun_upd_twist)

lemma ordered_pairs_2: "ordered_pairs 2 = [(0, 1), (1, 0)]"
  by code_simp

lemma one_positive_both:
  "(let d = snd (read_file one_positive zeroD);
        (p1, n1, ties1) = signed_ranks d 5 zeroP 0 1;
        (p2, n2, ties2) = signed_ranks d 5 p1 1 0
    in (n1, ties1, Tplus_of p1 5, scan_upper 5 1 0, Wsig 3) = (5, 0, 1, 3, 0.05)
       \<and> (n2, ties2, Tplus_of p2 5, scan_upper 5 14 0, Wsig 8) = (5, 0, 14, 8, 0.5))"
  by code_simp

lemma main_wilcoxon_one_positive:
  "main_wilcoxon myZ zeroD zeroP 4 (Some one_positive) True
     = Inr \<lparr>out_file = [Better 2 1 (Some 0.05), Better 1 2 (Some 0.5)], warnings = []\<rparr>"
proof -
  define d where "d = snd (read_file one_positive zeroD)"
  obtain p1 where s1: "signed_ranks d 5 zeroP 0 1 = (p1, 5, 0)" and T1: "Tplus_of p1 5 = 1"
    and s2': "(case signed_ranks d 5 p1 1 0 of (p2, n2, ties2) \<Rightarrow> n2 = 5 \<and> ties2 = 0 \<and> Tplus_of p2 5 = 14)"
    using one_positive_both
    by (cases "signed_ranks (snd (read_file one_positive zeroD)) 5 zeroP 0 1")
       (auto simp: d_def Let_def split: prod.splits)
  obtain p2 where s2: "signed_ranks d 5 p1 1 0 = (p2, 5, 0)" and T2: "Tplus_of p2 5 = 14"
    using s2' by (cases "signed_ranks d 5 p1 1 0") auto
  have scans: "scan_upper 5 1 0 = 3" "Wsig 3 = 0.05" "scan_upper 5 14 0 = 8" "Wsig 8 = 0.5"
    using one_positive_both by (auto simp: Let_def split: prod.splits)
  have w1: "wilcoxon_pair myZ d 5 zeroP 0 1 = Inr (p1, Exact, Better 2 1 (Some 0.05))"
    unfolding wilcoxon_pair_def s1 by (simp add: T1 scans Let_def)
  have w2: "wilcoxon_pair myZ d 5 p1 1 0 = Inr (p2, Exact, Better 1 2 (Some 0.5))"
    unfolding wilcoxon_pair_def s2 by (simp add: T2 scans Let_def)
  have pairs: "wilcoxon_pairs myZ d 5 [(0, 1), (1, 0)] zeroP []
          = Inr [Better 2 1 (Some 0.05), Better 1 2 (Some 0.5)]"
    using w1 w2 by simp
  have "main_wilcoxon myZ zeroD zeroP 4 (Some one_positive) True
          = (case wilcoxon_pairs myZ d 5 [(0, 1), (1, 0)] zeroP [] of
               Inl e \<Rightarrow> Inl e
             | Inr out \<Rightarrow> Inr \<lparr>out_file = out, warnings = []\<rparr>)"
    by (simp add: main_wilcoxon_def one_positive_check ordered_pairs_2 case_prod_beta d_def
        del: wilcoxon_pairs.simps)
  then show ?thesis
    by (simp only: pairs sum.case)
qed

lemma mostly_equal_ranks:
  "snd (signed_ranks (snd (read_file mostly_equal zeroD)) 5 zeroP 0 1) = (2, 3)"
  by code_simp

lemma many_zeros_ranks:
  "snd (signed_ranks (snd (read_file many_zeros zeroD)) 9 zeroP 0 1) = (4, 5)"
  by code_simp

text \<open>
  Claim C4: the normal approximation is used exactly when \<open>n > 50\<close> or the fraction of
  dropped zero differences is above \<open>0.5\<close>, and it reports \<open>\<Phi>((sum - 1) / \<surd>sumsq)\<close>.
  The test \<^verbatim>\<open>if(n<4)\<close> comes first: in \<open>mostly_equal\<close> three of the five differences are
  zero, the fraction is \<open>0.6\<close>, and the run stops with "Need at least 4 values" instead of
  taking the branch.
\<close>

theorem wilcoxon_pair_mostly_equal:
  "real 3 / real 5 > 0.5
   \<and> snd (signed_ranks (snd (read_file mostly_equal zeroD)) 5 zeroP 0 1) = (2, 3)
   \<and> wilcoxon_pair half (snd (read_file mostly_equal zeroD)) 5 zeroP 0 1 = Inl NeedFour"
proof -
  obtain p where s: "signed_ranks (snd (read_file mostly_equal zeroD)) 5 zeroP 0 1 = (p, 2, 3)"
    using mostly_equal_ranks
    by (cases "signed_ranks (snd (read_file mostly_equal zeroD)) 5 zeroP 0 1") auto
  show ?thesis
    unfolding wilcoxon_pair_def s by (simp add: mostly_equal_ranks)
qed

text \<open>
  Claim C4 as amended: for a pair with \<open>n \<ge> 4\<close> the normal approximation is used exactly
  when \<open>n > 50\<close> or \<open>ties / Nsamp[0] > 0.5\<close>; it then reports
  \<open>myZ ((sum - 1) / sqrt sumsq)\<close> over the signed ranks, a value in which the lower-tail
  \<open>lowerp\<close> does not occur; otherwise the table is used.
\<close>

theorem wilcoxon_pair_branch:
  assumes "snd (signed_ranks d Nsamp0 p a b) = (n, ties)" and "4 \<le> n"
  shows "wilcoxon_pair myZ d Nsamp0 p a b =
      (if n > 50 \<or> real ties / real Nsamp0 > 0.5
       then Inr (fst (signed_ranks d Nsamp0 p a b), Normal, Better (b + 1) (a + 1)
              (Some (myZ ((sum_signed (fst (signed_ranks d Nsamp0 p a b)) n - 1)
                         / sqrt (sum_sq_signed (fst (signed_ranks d Nsamp0 p a b)) n)))))
       else Inr (fst (signed_ranks d Nsamp0 p a b), Exact, Better (b + 1) (a + 1)
              (Some (Wsig (scan_upper n (Tplus_of (fst (signed_ranks d Nsamp0 p a b)) n) 0)))))"
proof -
  obtain p' where s: "signed_ranks d Nsamp0 p a b = (p', n, ties)"
    using assms(1) by (metis prod.collapse)
  show ?thesis
    using assms(2) unfolding wilcoxon_pair_def s by (simp add: Let_def)
qed

theorem wilcoxon_pair_branch_witness:
  "snd (signed_ranks (snd (read_file many_zeros zeroD)) 9 zeroP 0 1) = (4, 5) \<and> (4::nat) \<le> 4
   \<and> real 5 / real 9 > 0.5
   \<and> map_sum id snd (wilcoxon_pair half (snd (read_file many_zeros zeroD)) 9 zeroP 0 1)
        = Inr (Normal, Better 2 1 (Some (1 / 2)))"
  using wilcoxon_pair_branch [OF many_zeros_ranks, of half] many_zeros_ranks
  by (simp add: half_def)

section \<open>Too few sample blocks\<close>







section \<open>The degenerate case of the rank-sum statistic\<close>

text \<open>
  The early return of \<^verbatim>\<open>corrected_Tvalue\<close>: when the numerator that the program computes is
  zero the result is 0 and \<^verbatim>\<open>T1/sqrt(denom)\<close> is not evaluated, whatever the denominator
  is. The product \<^verbatim>\<open>n*(N+1)\<close> of the numerator is the mathematical one as long as it is
  below \<open>2 ^ 31\<close>.
\<close>

lemma corrected_Tvalue_zero_numerator:
  "sum_of_ranks d idx N - real_of_int (int32 (int n * int32 (int N + 1))) / 2 = 0
     \<Longrightarrow> corrected_Tvalue d n m N idx = Some 0"
  by (simp add: corrected_Tvalue_def Let_def)

lemma int32_id: "0 \<le> x \<Longrightarrow> x < 2 ^ 31 \<Longrightarrow> int32 x = x"
  by (simp add: int32_def)

lemma numerator_product_no_wrap:
  assumes "n * (N + 1) < 2 ^ 31" and "0 < n"
  shows "real_of_int (int32 (int n * int32 (int N + 1))) = real (n * (N + 1))"
proof -
  have "N + 1 \<le> n * (N + 1)"
    using assms(2) by (cases n) auto
  then have "N + 1 < 2 ^ 31"
    using assms(1) by linarith
  then have "int32 (int N + 1) = int N + 1"
    by (intro int32_id) auto
  moreover have "int32 (int n * (int N + 1)) = int n * (int N + 1)"
  proof (rule int32_id)
    show "0 \<le> int n * (int N + 1)" by simp
    have "int n * (int N + 1) = int (n * (N + 1))" by (simp add: algebra_simps)
    also have "\<dots> < 2 ^ 31"
      using assms(1) by (metis of_nat_less_iff of_nat_numeral of_nat_power)
    finally show "int n * (int N + 1) < 2 ^ 31" .
  qed
  ultimately show ?thesis by (simp add: algebra_simps)
qed

lemma equal_mean_ranks:
  fixes A B :: real
  assumes "0 < n" "0 < m" "N = n + m" and sum: "A + B = real (N * (N + 1)) / 2"
  shows "(A / real n = B / real m) = (A - real (n * (N + 1)) / 2 = 0)"
proof -
  define S where "S = real N"
  have S: "S = real n + real m" "0 < S"
    using assms(1,3) by (simp_all add: S_def)
  have B: "B = S * (S + 1) / 2 - A"
    using sum by (simp add: S_def algebra_simps)
  have "(A / real n = B / real m) = (A * real m = B * real n)"
    using assms(1,2) by (simp add: field_simps)
  also have "\<dots> = (A * (real n + real m) = real n * (S * (S + 1) / 2))"
    unfolding B by (auto simp: algebra_simps)
  also have "\<dots> = (A * S = (real n * (S + 1) / 2) * S)"
    using S(1) by (simp add: algebra_simps)
  also have "\<dots> = (A = real n * (S + 1) / 2)"
    using S(2) by simp
  finally show ?thesis
    by (simp add: S_def algebra_simps)
qed

text \<open>
  The pool of a test of mann-whit.cc carries the labels \<open>j\<close> and \<open>k\<close> only, so its two rank
  sums add up to the sum of all ranks: the rank-sum invariant holds for it unless the
  last observation starts a run and the cell behind the pool has its value.
\<close>

lemma copy_sample_apply:
  "copy_sample d pair start cnt off l i =
     (if off \<le> i \<and> i < off + cnt
      then (pair i)\<lparr>value_D := value_D (d (i - off + start)), label := l\<rparr>
      else pair i)"
  unfolding copy_sample_def by (induction cnt) (auto simp: less_Suc_eq)

lemma mw_sorted_labels:
  assumes "i < Nsamp j + Nsamp k"
  shows "label (mw_sorted Nsamp d pair j k i) = j \<or> label (mw_sorted Nsamp d pair j k i) = k"
proof -
  define pair2 where "pair2 = copy_sample d (copy_sample d pair (start_of Nsamp j) (Nsamp j) 0 j)
      (start_of Nsamp k) (Nsamp k) (Nsamp j) k"
  have "label (pair2 u) = j \<or> label (pair2 u) = k" if "u < Nsamp j + Nsamp k" for u
    using that by (auto simp: pair2_def copy_sample_apply)
  moreover have "mw_sorted Nsamp d pair j k i \<in> pair2 ` {0..<Nsamp j + Nsamp k}"
    using qsort_cell_in_window [OF assms, of compare pair2]
    by (simp add: mw_sorted_def pair2_def Let_def)
  ultimately show ?thesis by force
qed

lemma two_labels_rank_sum:
  assumes "\<And>i. i < N \<Longrightarrow> label (d i) = a \<or> label (d i) = b" and "a \<noteq> b"
  shows "sum_of_ranks d a N + sum_of_ranks d b N = rank_sum d N"
proof -
  have "sum_of_ranks d a N + sum_of_ranks d b N
          = (\<Sum>i\<leftarrow>[0..<N]. (if label (d i) = a then rank (d i) else 0)
                             + (if label (d i) = b then rank (d i) else 0))"
    by (simp add: sum_of_ranks_def sum_list_addf)
  also have "\<dots> = (\<Sum>i\<leftarrow>[0..<N]. rank (d i))"
    by (rule arg_cong [where f = sum_list], rule map_cong) (use assms in auto)
  finally show ?thesis
    by (simp add: rank_sum_def)
qed

lemma mw_pool_rank_sums:
  assumes "j \<noteq> k" and N: "N = Nsamp j + Nsamp k"
      and behind: "value_D (mw_sorted Nsamp d pair j k N) \<noteq> value_D (mw_sorted Nsamp d pair j k (N - 1))
           \<or> (2 \<le> N \<and> value_D (mw_sorted Nsamp d pair j k (N - 2))
                          = value_D (mw_sorted Nsamp d pair j k (N - 1)))"
  shows "sum_of_ranks (fst (mw_pool Nsamp d pair j k)) j N + sum_of_ranks (fst (mw_pool Nsamp d pair j k)) k N
           = real (N * (N + 1)) / 2"
proof -
  have "label (fst (mw_pool Nsamp d pair j k) i) = j \<or> label (fst (mw_pool Nsamp d pair j k) i) = k"
    if "i < N" for i
  proof -
    from assign_ranks_behind_differs(5) [OF behind that] obtain r
      where "fst (assign_ranks (mw_sorted Nsamp d pair j k) N) i = (mw_sorted Nsamp d pair j k i)\<lparr>rank := r\<rparr>"
      by blast
    with mw_sorted_labels [of i Nsamp j k d pair] that show ?thesis
      by (simp add: mw_pool_def N)
  qed
  from two_labels_rank_sum [OF this assms(1)] assign_ranks_behind_differs(1) [OF behind]
  show ?thesis
    by (simp add: mw_pool_def N)
qed

text \<open>
  Where the two rank sums add up to \<open>N (N + 1) / 2\<close> and \<^verbatim>\<open>n*(N+1)\<close> has room in an
  \<^verbatim>\<open>int\<close>, equal mean ranks are the same as a zero numerator, and the result is 0.
\<close>

lemma corrected_Tvalue_equal_means:
  assumes "0 < n" "0 < m" "N = n + m"
      and "sum_of_ranks d a N + sum_of_ranks d b N = real (N * (N + 1)) / 2"
      and "n * (N + 1) < 2 ^ 31"
  shows "(sum_of_ranks d a N / real n = sum_of_ranks d b N / real m
            \<longleftrightarrow> sum_of_ranks d a N - real (n * (N + 1)) / 2 = 0)
         \<and> (sum_of_ranks d a N / real n = sum_of_ranks d b N / real m
            \<longrightarrow> corrected_Tvalue d n m N a = Some 0)"
  using equal_mean_ranks [OF assms(1-4)] corrected_Tvalue_zero_numerator [of d a N n m]
    numerator_product_no_wrap [OF assms(5,1)]
  by simp

text \<open>
  Two samples of one value each, both 5: the ranks are \<open>3/2\<close> and \<open>3/2\<close>, the denominator
  is 0, and the result is 0.
\<close>

lemma tied_pool_ranks:
  "sum_of_ranks tied_pool 0 2 = 3 / 2 \<and> sum_of_ranks tied_pool 1 2 = 3 / 2 \<and> sum_squared_ranks tied_pool 2 = 9 / 2"
  by code_simp

lemma corrected_Tvalue_tied_pool:
  "sum_of_ranks tied_pool 0 2 / real 1 = sum_of_ranks tied_pool 1 2 / real 1
   \<and> real (1 * 1) / real_of_int (int 2 * (int 2 - 1)) * sum_squared_ranks tied_pool 2
       - real (1 * 1 * (2 + 1) * (2 + 1)) / real_of_int (4 * (int 2 - 1)) = 0
   \<and> corrected_Tvalue tied_pool 1 1 2 0 = Some 0"
  using corrected_Tvalue_equal_means [of 1 1 2 tied_pool 0 1] tied_pool_ranks by simp

text \<open>
  The samples \<open>1, 9\<close> and \<open>4\<close> alone in a file (\<open>first_and_third\<close>, with zeros behind the
  buffer): the pool \<open>1, 4, 9\<close> gets the ranks \<open>1, 2, 3\<close>, the rank sums are 4 and 2, the
  mean ranks are \<open>4/2\<close> and \<open>2/1\<close>, and the statistic is 0 by the early return.
\<close>

lemma first_and_third_check:
  "check_file first_and_third zeroN = Inr (2, 3, zeroN(0 := 2, 1 := 1))"
  by (simp add: check_file_def first_and_third_def MAX_DISTS_def zeroN_def numeral_2_eq_2
      numeral_3_eq_3 fun_upd_twist)

lemma alone_pool_sums:
  "window alone_pool 3 = [mkD 1 0 1, mkD 4 1 2, mkD 9 0 3]
   \<and> sum_of_ranks alone_pool 0 3 = 4 \<and> sum_of_ranks alone_pool 1 3 = 2"
  by code_simp

lemma corrected_Tvalue_alone_pool:
  "sum_of_ranks alone_pool 0 3 / real 2 = sum_of_ranks alone_pool 1 3 / real 1
   \<and> corrected_Tvalue alone_pool 2 1 3 0 = Some 0"
proof -
  have sums: "sum_of_ranks alone_pool 0 3 = 4" "sum_of_ranks alone_pool 1 3 = 2"
    using alone_pool_sums by blast+
  show ?thesis
    using sums by (simp add: corrected_Tvalue_def int32_def)
qed


text \<open>
  The numerator in a large pool: with \<open>n = m = 32768\<close> the product \<^verbatim>\<open>n*(N+1)\<close> is
  \<open>2147516416\<close>, above \<open>2 ^ 31\<close>, and the \<^verbatim>\<open>int\<close> is \<open>-2147450880\<close>. A rank sum of
  \<open>n (N + 1) / 2\<close> then leaves the numerator \<open>2 ^ 31\<close> and the early return is not taken.
\<close>

lemma corrected_Tvalue_numerator_wraps:
  assumes "sum_of_ranks d a 65536 = real (32768 * (65536 + 1)) / 2"
  shows "int32 (int 32768 * int32 (int 65536 + 1)) = - 2147450880"
    and "corrected_Tvalue d 32768 32768 65536 a \<noteq> Some 0"
proof -
  show w: "int32 (int 32768 * int32 (int 65536 + 1)) = - 2147450880"
    by (simp add: int32_def)
  have "sum_of_ranks d a 65536 - real_of_int (int32 (int 32768 * int32 (int 65536 + 1))) / 2
          = 2147483648"
    unfolding assms w by simp
  then show "corrected_Tvalue d 32768 32768 65536 a \<noteq> Some 0"
    by (auto simp: corrected_Tvalue_def Let_def ddiv_def dsqrt_def
        split: Option.bind_splits if_splits)
qed

section \<open>The report of the omnibus test\<close>















end
